theory Spec2Isabelle
  imports
    Complex_Main
    "HOL-Library.Multiset"
    "HOL-Library.Char_ord"
    "HOL-Library.List_Lexorder"
    "HOL-Library.Product_Lexorder"
begin

section \<open>Bracket detection of LdrToHdrCalibration\<close>

text \<open>
  A shallow embedding of \<^verbatim>\<open>meshroom/nodes/aliceVision/LdrToHdrCalibration.py\<close>:
  \<^verbatim>\<open>findMetadata\<close>, \<^verbatim>\<open>LdrToHdrCalibration.getExposure\<close> and
  \<^verbatim>\<open>LdrToHdrCalibration.update\<close>.

  Conventions of the model.
  \<^item> A Python exception is a value \<open>Inl e\<close> of a sum type; a normal result is \<open>Inr v\<close>.
  \<^item> A Python float is a \<open>pyfloat\<close>: a finite value, given as the real number it
    denotes, or one of \<open>+inf\<close>, \<open>-inf\<close>, \<open>nan\<close>. An operation on finite values
    computes the exact real result and rounds it: the rounding is an argument \<open>rnd\<close>
    of the operations, and Python's is \<open>binary64\<close>, the rounding of IEEE 754 doubles
    to the nearest, ties to even, which underflows to zero and overflows to \<open>inf\<close>.
    The exceptions of the operations are modelled: the ZeroDivisionError of \<open>/\<close>,
    the ValueError of \<open>math.sqrt\<close>, the OverflowError of \<open>pow\<close> and of the
    conversion of an int. The sign of a zero is not kept: \<open>-0.0\<close> is \<open>0.0\<close>, which
    no comparison and no exception of this code tells apart. A \<open>nan\<close> is a value
    without identity (\<^verbatim>\<open>list.sort\<close> and \<^verbatim>\<open>set\<close> compare tuples by identity before
    \<^verbatim>\<open>==\<close>, see \<open>py_sort\<close> and \<open>selectBrackets\<close>).
  \<^item> A string is a list of code points below 256.
\<close>

subsection \<open>Exceptions and floats\<close>

datatype error = TypeError | ValueError | ZeroDivisionError | OverflowError

fun ebind :: "error + 'a \<Rightarrow> ('a \<Rightarrow> error + 'b) \<Rightarrow> error + 'b" where
  "ebind (Inl e) f = Inl e"
| "ebind (Inr x) f = f x"

datatype pyfloat = Fin real | PInf | NInf | NaN

text \<open>\<open>a < b\<close> on floats: false as soon as one side is \<open>nan\<close>.\<close>

fun flt :: "pyfloat \<Rightarrow> pyfloat \<Rightarrow> bool" where
  "flt (Fin a) (Fin b) = (a < b)"
| "flt (Fin a) PInf = True"
| "flt NInf (Fin b) = True"
| "flt NInf PInf = True"
| "flt _ _ = False"

definition fgt :: "pyfloat \<Rightarrow> pyfloat \<Rightarrow> bool" where
  "fgt a b = flt b a"

fun isfinite :: "pyfloat \<Rightarrow> bool" where
  "isfinite (Fin a) = True"
| "isfinite _ = False"

text \<open>
  Rounding to the nearest double, ties to even. \<open>rne\<close> rounds a real to the nearest
  integer, a tie to the even one. \<open>bexp x\<close> is the binary exponent of \<open>x\<close>: the \<open>e\<close>
  with \<open>2 ^ e \<le> \<bar>x\<bar> < 2 ^ (e + 1)\<close>, and \<open>- 1022\<close> below \<open>2 ^ - 1022\<close>, where the
  doubles are subnormal. \<open>ulp x\<close> is the distance of the doubles around \<open>x\<close>, which
  have 53 significant bits. A result that rounds to \<open>2 ^ 1024\<close> or beyond in
  magnitude is infinite.
\<close>

definition rne :: "real \<Rightarrow> int" where
  "rne y = (let f = \<lfloor>y\<rfloor>; d = y - of_int f
            in if d < 1 / 2 then f else if 1 / 2 < d then f + 1
               else if even f then f else f + 1)"

definition bexp :: "real \<Rightarrow> int" where
  "bexp x = (if \<bar>x\<bar> < 2 powr (- 1022) then - 1022 else \<lfloor>log 2 \<bar>x\<bar>\<rfloor>)"

definition ulp :: "real \<Rightarrow> real" where
  "ulp x = 2 powr (of_int (bexp x) - 52)"

definition binary64 :: "real \<Rightarrow> pyfloat" where
  "binary64 x =
     (let r = of_int (rne (x / ulp x)) * ulp x
      in if 2 ^ 1024 \<le> \<bar>r\<bar> then (if 0 < x then PInf else NInf) else Fin r)"

text \<open>No rounding: the arithmetic of the reals.\<close>

definition exact :: "real \<Rightarrow> pyfloat" where
  "exact x = Fin x"

text \<open>\<open>a * b\<close> on floats.\<close>

fun fmul :: "(real \<Rightarrow> pyfloat) \<Rightarrow> pyfloat \<Rightarrow> pyfloat \<Rightarrow> pyfloat" where
  "fmul rnd NaN _ = NaN"
| "fmul rnd _ NaN = NaN"
| "fmul rnd (Fin a) (Fin b) = rnd (a * b)"
| "fmul rnd (Fin a) PInf = (if a = 0 then NaN else if 0 < a then PInf else NInf)"
| "fmul rnd (Fin a) NInf = (if a = 0 then NaN else if 0 < a then NInf else PInf)"
| "fmul rnd PInf (Fin b) = (if b = 0 then NaN else if 0 < b then PInf else NInf)"
| "fmul rnd NInf (Fin b) = (if b = 0 then NaN else if 0 < b then NInf else PInf)"
| "fmul rnd PInf PInf = PInf"
| "fmul rnd PInf NInf = NInf"
| "fmul rnd NInf PInf = NInf"
| "fmul rnd NInf NInf = PInf"

text \<open>\<open>a / b\<close> on floats: Python raises ZeroDivisionError for a zero divisor, whatever
  the dividend.\<close>

fun fdiv :: "(real \<Rightarrow> pyfloat) \<Rightarrow> pyfloat \<Rightarrow> pyfloat \<Rightarrow> error + pyfloat" where
  "fdiv rnd a (Fin b) =
     (if b = 0 then Inl ZeroDivisionError
      else Inr (case a of
                  Fin x \<Rightarrow> rnd (x / b)
                | PInf \<Rightarrow> (if 0 < b then PInf else NInf)
                | NInf \<Rightarrow> (if 0 < b then NInf else PInf)
                | NaN \<Rightarrow> NaN))"
| "fdiv rnd (Fin x) PInf = Inr (Fin 0)"
| "fdiv rnd (Fin x) NInf = Inr (Fin 0)"
| "fdiv rnd _ _ = Inr NaN"

text \<open>\<open>math.sqrt\<close>: a negative argument raises ValueError (math domain error).\<close>

fun fsqrt :: "(real \<Rightarrow> pyfloat) \<Rightarrow> pyfloat \<Rightarrow> error + pyfloat" where
  "fsqrt rnd (Fin x) = (if x < 0 then Inl ValueError else Inr (rnd (sqrt x)))"
| "fsqrt rnd PInf = Inr PInf"
| "fsqrt rnd NInf = Inl ValueError"
| "fsqrt rnd NaN = Inr NaN"

text \<open>\<open>pow(2.0, x)\<close>: Python raises OverflowError when the result of a finite \<open>x\<close>
  is infinite; a result that underflows is \<open>0.0\<close>, without an exception. The power
  function of the C library is taken to round to the nearest double.\<close>

fun fpow2 :: "pyfloat \<Rightarrow> error + pyfloat" where
  "fpow2 (Fin x) =
     (case binary64 (2 powr x) of
        Fin r \<Rightarrow> Inr (Fin r)
      | _ \<Rightarrow> Inl OverflowError)"
| "fpow2 PInf = Inr PInf"
| "fpow2 NInf = Inr (Fin 0)"
| "fpow2 NaN = Inr NaN"

text \<open>The conversion of an int to a float, in \<^verbatim>\<open>float(n)\<close> and in \<^verbatim>\<open>n / 2.0\<close>: the
  nearest double, and OverflowError for the integers that round to \<open>2 ^ 1024\<close> or
  beyond in magnitude.\<close>

definition int_to_float :: "int \<Rightarrow> error + pyfloat" where
  "int_to_float n =
     (case binary64 (of_int n) of
        Fin r \<Rightarrow> Inr (Fin r)
      | _ \<Rightarrow> Inl OverflowError)"

subsection \<open>getExposure\<close>

type_synonym triple = "pyfloat \<times> pyfloat \<times> pyfloat"

text \<open>
  \<^verbatim>\<open>getExposure(exp, refIso = 100.0, refFnumber = 1.0)\<close>, the references being
  explicit arguments. The source rebinds \<^verbatim>\<open>shutterSpeed\<close> and \<^verbatim>\<open>fnumber\<close>; the
  rebound values are \<open>shutterSpeed'\<close> and \<open>fnumber'\<close>, and \<^verbatim>\<open>iso\<close> is \<open>isoValue\<close>.
  The literal \<^verbatim>\<open>1e-6\<close> and the quotient \<^verbatim>\<open>1.0 / 200.0\<close> are the roundings of
  \<open>1 / 1000000\<close> and of \<open>1 / 200\<close>; the other literals are doubles.
\<close>

fun getExposure :: "(real \<Rightarrow> pyfloat) \<Rightarrow> triple \<Rightarrow> pyfloat \<Rightarrow> pyfloat \<Rightarrow> error + pyfloat" where
  "getExposure rnd (fnumber, shutterSpeed, isoValue) refIso refFnumber =
       (let validShutterSpeed = (fgt shutterSpeed (Fin 0) \<and> isfinite shutterSpeed);
            validFnumber = (fgt fnumber (Fin 0) \<and> isfinite fnumber)
        in if \<not> validShutterSpeed \<and> \<not> validFnumber then Inr (Fin (- 1))
           else
             let validRefFnumber = (fgt refFnumber (Fin 0) \<and> isfinite refFnumber);
                 shutterSpeed' = (if \<not> validShutterSpeed then rnd (1 / 200) else shutterSpeed);
                 fnumber' = (if \<not> validFnumber
                             then (if validRefFnumber then refFnumber else Fin 2)
                             else fnumber);
                 lRefFnumber = (if \<not> validRefFnumber then fnumber' else refFnumber)
             in ebind (if fgt isoValue (rnd (1 / 1000000)) \<and> fgt refIso (rnd (1 / 1000000))
                       then ebind (fdiv rnd isoValue refIso) (fsqrt rnd)
                       else Inr (Fin 1))
                  (\<lambda>isoToAperture.
                     let newFnumber = fmul rnd fnumber' isoToAperture
                     in ebind (fdiv rnd lRefFnumber newFnumber)
                          (\<lambda>q. let expIncrease = fmul rnd q q
                                in Inr (fmul rnd shutterSpeed' expIncrease))))"

subsection \<open>Metadata values and records\<close>

text \<open>
  The values a decoded JSON scalar can be: \<^verbatim>\<open>None\<close>, a bool, an int, a float or a
  string. A metadata record is the \<^verbatim>\<open>dict\<close> that \<^verbatim>\<open>json.loads\<close> returns, kept as an
  association list in the dict's insertion order (its keys are distinct).
\<close>

datatype pyval = PNone | PBool bool | PInt int | PFloat pyfloat | PStr string

type_synonym dict = "(string \<times> pyval) list"

text \<open>\<^verbatim>\<open>d.get(key, None)\<close>.\<close>

definition dict_get :: "dict \<Rightarrow> string \<Rightarrow> pyval" where
  "dict_get d key = (case map_of d key of None \<Rightarrow> PNone | Some v \<Rightarrow> v)"

text \<open>\<^verbatim>\<open>str.lower()\<close> on code points below 256: the upper-case letters there are
  \<^verbatim>\<open>A-Z\<close> (65 to 90) and the Latin-1 letters 192 to 222 but the multiplication sign
  215, each 32 below its lower-case letter.\<close>

definition lower_char :: "char \<Rightarrow> char" where
  "lower_char c =
     (let n = (of_char c :: nat)
      in if (65 \<le> n \<and> n \<le> 90) \<or> (192 \<le> n \<and> n \<le> 214) \<or> (216 \<le> n \<and> n \<le> 222)
         then char_of (n + 32) else c)"

definition lower :: "string \<Rightarrow> string" where
  "lower s = map lower_char s"

text \<open>\<^verbatim>\<open>s.replace(" ", "")\<close>.\<close>

definition remove_spaces :: "string \<Rightarrow> string" where
  "remove_spaces s = filter (\<lambda>c. c \<noteq> CHR '' '') s"

text \<open>\<^verbatim>\<open>s.split(sep)[-1]\<close> for a one-character separator: what follows the last
  separator, the whole string when there is none.\<close>

definition split_last :: "char \<Rightarrow> string \<Rightarrow> string" where
  "split_last sep s = rev (takeWhile (\<lambda>c. c \<noteq> sep) (rev s))"

subsection \<open>findMetadata\<close>

text \<open>The inner loop over \<^verbatim>\<open>d.items()\<close> for one \<^verbatim>\<open>key\<close>: \<open>Some dv\<close> when it
  returns \<^verbatim>\<open>dv\<close>, \<open>None\<close> when it falls through.\<close>

fun scan_items :: "dict \<Rightarrow> string \<Rightarrow> pyval option" where
  "scan_items [] key = None"
| "scan_items ((dk, dv) # rest) key =
     (let k = lower key;
          dkm = remove_spaces (lower dk)
      in if dkm = lower key then Some dv
         else let dkm' = split_last CHR ''/'' (split_last CHR '':'' dkm)
              in if dkm' = k then Some dv else scan_items rest key)"

fun findMetadata :: "dict \<Rightarrow> string list \<Rightarrow> pyval \<Rightarrow> pyval" where
  "findMetadata d [] defaultValue = defaultValue"
| "findMetadata d (key # keys) defaultValue =
     (let v = dict_get d key
      in if v \<noteq> PNone then v
         else (case scan_items d key of
                 Some dv \<Rightarrow> dv
               | None \<Rightarrow> findMetadata d keys defaultValue))"

subsection \<open>Reading the viewpoints\<close>

record viewpoint =
  path :: string
  metadata :: "dict option"

text \<open>
  \<open>metadata\<close> is \<open>None\<close> for the empty string (\<^verbatim>\<open>not jsonMetadata\<close>) and \<open>Some d\<close>
  for the text of a JSON object that \<^verbatim>\<open>json.loads\<close> decodes to \<open>d\<close>.

  Where \<^verbatim>\<open>update\<close> leaves its loop: by an exception, by setting \<^verbatim>\<open>nbBrackets\<close>
  and returning, or by going on.
\<close>

datatype 'a step = Raise error | Return int | Continue 'a

text \<open>Truthiness (\<^verbatim>\<open>not x\<close> is its negation).\<close>

fun truthy :: "pyval \<Rightarrow> bool" where
  "truthy PNone = False"
| "truthy (PBool b) = b"
| "truthy (PInt n) = (n \<noteq> 0)"
| "truthy (PFloat f) = (f \<noteq> Fin 0)"
| "truthy (PStr s) = (s \<noteq> [])"

text \<open>\<^verbatim>\<open>aperture / 2.0\<close>: TypeError on \<^verbatim>\<open>None\<close> and on a string; an int is
  converted to a float first, and a bool is the int 0 or 1.\<close>

fun halve :: "pyval \<Rightarrow> error + pyfloat" where
  "halve PNone = Inl TypeError"
| "halve (PBool b) = Inr (Fin (if b then 1 / 2 else 0))"
| "halve (PInt n) = ebind (int_to_float n) (\<lambda>f. fdiv binary64 f (Fin 2))"
| "halve (PFloat f) = fdiv binary64 f (Fin 2)"
| "halve (PStr s) = Inl TypeError"

text \<open>\<^verbatim>\<open>float(x)\<close>: TypeError on \<^verbatim>\<open>None\<close>; on a string, the builtin parser, which
  is not code of the repository and is the parameter \<open>parseFloat\<close> (\<open>None\<close> where it
  raises ValueError).\<close>

fun toFloat :: "(string \<Rightarrow> pyfloat option) \<Rightarrow> pyval \<Rightarrow> error + pyfloat" where
  "toFloat parseFloat PNone = Inl TypeError"
| "toFloat parseFloat (PBool b) = Inr (Fin (if b then 1 else 0))"
| "toFloat parseFloat (PInt n) = int_to_float n"
| "toFloat parseFloat (PFloat f) = Inr f"
| "toFloat parseFloat (PStr s) =
     (case parseFloat s of None \<Rightarrow> Inl ValueError | Some f \<Rightarrow> Inr f)"

text \<open>The body of the loop over the viewpoints, from \<^verbatim>\<open>d = json.loads(...)\<close> to the
  triple that is appended.\<close>

definition readExposure :: "(string \<Rightarrow> pyfloat option) \<Rightarrow> dict \<Rightarrow> triple step" where
  "readExposure parseFloat d =
     (let fnumber0 = findMetadata d [''FNumber''] (PStr '''');
          fnumberR =
            (if fnumber0 = PStr ''''
             then (let aperture =
                         findMetadata d [''Exif:ApertureValue'', ''ApertureValue'', ''Aperture'']
                           (PStr '''')
                   in if aperture = PStr '''' then Inr (PFloat (Fin (- 1)))
                      else ebind (halve aperture) (\<lambda>h.
                           ebind (fpow2 h) (\<lambda>f. Inr (PFloat f))))
             else Inr fnumber0)
      in case fnumberR of
           Inl e \<Rightarrow> Raise e
         | Inr fnumber \<Rightarrow>
             let shutterSpeed =
                   findMetadata d
                     [''ExposureTime'', ''Exif:ShutterSpeedValue'', ''ShutterSpeedValue'',
                      ''ShutterSpeed'']
                     (PFloat (Fin (- 1)));
                 isoValue =
                   findMetadata d
                     [''Exif:PhotographicSensitivity'', ''PhotographicSensitivity'',
                      ''Photographic Sensitivity'', ''ISO'']
                     (PFloat (Fin (- 1)))
             in if \<not> truthy fnumber \<and> \<not> truthy shutterSpeed then Return 1
                else (case ebind (toFloat parseFloat fnumber) (\<lambda>f.
                             ebind (toFloat parseFloat shutterSpeed) (\<lambda>s.
                             ebind (toFloat parseFloat isoValue) (\<lambda>i. Inr (f, s, i)))) of
                        Inl e \<Rightarrow> Raise e
                      | Inr t \<Rightarrow> Continue t))"

text \<open>The loop over the viewpoints: the first viewpoint that raises or returns decides.\<close>

fun collect :: "(string \<Rightarrow> pyfloat option) \<Rightarrow> viewpoint list \<Rightarrow> (string \<times> triple) list step" where
  "collect parseFloat [] = Continue []"
| "collect parseFloat (vp # vps) =
     (case metadata vp of
        None \<Rightarrow> Return 0
      | Some d \<Rightarrow>
          (case readExposure parseFloat d of
             Raise e \<Rightarrow> Raise e
           | Return n \<Rightarrow> Return n
           | Continue t \<Rightarrow>
               (case collect parseFloat vps of
                  Continue inputs \<Rightarrow> Continue ((path vp, t) # inputs)
                | Raise e \<Rightarrow> Raise e
                | Return n \<Rightarrow> Return n)))"

subsection \<open>Sorting the inputs\<close>

text \<open>
  \<^verbatim>\<open>inputs.sort()\<close> sorts the tuples \<^verbatim>\<open>(path, (fnumber, shutterSpeed, iso))\<close> by
  Python's \<^verbatim>\<open><\<close> on tuples: the first position where the two tuples are not
  \<^verbatim>\<open>==\<close> decides, by \<^verbatim>\<open><\<close> on that position. Strings compare by code points,
  lexicographically.
\<close>

definition feq :: "pyfloat \<Rightarrow> pyfloat \<Rightarrow> bool" where
  "feq a b = (a = b \<and> a \<noteq> NaN)"

fun triple_lt :: "triple \<Rightarrow> triple \<Rightarrow> bool" where
  "triple_lt (a1, b1, c1) (a2, b2, c2) =
     (if \<not> feq a1 a2 then flt a1 a2
      else if \<not> feq b1 b2 then flt b1 b2
      else flt c1 c2)"

fun input_lt :: "string \<times> triple \<Rightarrow> string \<times> triple \<Rightarrow> bool" where
  "input_lt (p1, t1) (p2, t2) = (if p1 \<noteq> p2 then p1 < p2 else triple_lt t1 t2)"

text \<open>
  \<^verbatim>\<open>list.sort\<close> is stable. Where \<^verbatim>\<open><\<close> is a strict total order on the elements
  (no \<open>nan\<close> among the floats), every stable sort returns the same list; the model is
  insertion sort. With a \<open>nan\<close> in the list the result of Python's sort depends on its
  algorithm: the model is then still a permutation of the list, and nothing more is
  proved of it.
\<close>

fun insort_lt :: "string \<times> triple \<Rightarrow> (string \<times> triple) list \<Rightarrow> (string \<times> triple) list" where
  "insort_lt x [] = [x]"
| "insort_lt x (y # ys) = (if input_lt y x then y # insort_lt x ys else x # y # ys)"

definition py_sort :: "(string \<times> triple) list \<Rightarrow> (string \<times> triple) list" where
  "py_sort xs = foldr insort_lt xs []"

subsection \<open>The grouping walk\<close>

text \<open>\<^verbatim>\<open>os.path.dirname\<close> of \<^verbatim>\<open>posixpath\<close>: the head up to the last slash, its
  trailing slashes stripped unless it is made of slashes only.\<close>

definition dirname :: "string \<Rightarrow> string" where
  "dirname p =
     (let head = rev (dropWhile (\<lambda>c. c \<noteq> CHR ''/'') (rev p))
      in if head \<noteq> [] \<and> filter (\<lambda>c. c \<noteq> CHR ''/'') head \<noteq> []
         then rev (dropWhile (\<lambda>c. c = CHR ''/'') (rev head))
         else head)"

record walk_state =
  exposureGroups :: "triple list list"
  exposures :: "triple list"
  prevPath :: "string option"
  prevExposure :: "pyfloat option"

text \<open>
  The loop \<^verbatim>\<open>for path, exp in inputs\<close>. \<^verbatim>\<open>newGroup\<close> is \<^verbatim>\<open>False\<close> when an
  iteration starts, so it is a value of the iteration. \<^verbatim>\<open>prevExposure\<close> is tested
  for truthiness: \<^verbatim>\<open>None\<close> and \<^verbatim>\<open>0.0\<close> are false.
\<close>

fun walk :: "(string \<times> triple) list \<Rightarrow> walk_state \<Rightarrow> error + walk_state" where
  "walk [] s = Inr s"
| "walk ((p, e) # rest) s =
     (let newGroup = (prevPath s \<noteq> None \<and> prevPath s \<noteq> Some (dirname p))
      in case getExposure binary64 e (Fin 100) (Fin 1) of
           Inl err \<Rightarrow> Inl err
         | Inr currentExposure \<Rightarrow>
             let s' =
                   (if (case prevExposure s of
                          None \<Rightarrow> False
                        | Some pe \<Rightarrow> pe \<noteq> Fin 0 \<and> flt currentExposure pe) \<or> newGroup
                    then s\<lparr>exposureGroups := exposureGroups s @ [exposures s],
                           exposures := [e]\<rparr>
                    else s\<lparr>exposures := exposures s @ [e]\<rparr>)
             in walk rest (s'\<lparr>prevPath := Some (dirname p),
                                prevExposure := Some currentExposure\<rparr>))"

definition walk_init :: walk_state where
  "walk_init = \<lparr>exposureGroups = [], exposures = [], prevPath = None, prevExposure = None\<rparr>"

text \<open>The walk and the final \<^verbatim>\<open>exposureGroups.append(exposures)\<close>.\<close>

definition groupExposures :: "(string \<times> triple) list \<Rightarrow> error + triple list list" where
  "groupExposures inputs =
     (case walk inputs walk_init of
        Inl err \<Rightarrow> Inl err
      | Inr s \<Rightarrow> Inr (exposureGroups s @ [exposures s]))"

subsection \<open>Selecting the bracket size\<close>

text \<open>A \<^verbatim>\<open>Counter\<close> is a dict of counts, in insertion order; \<open>counter_incr k\<close> is
  \<^verbatim>\<open>bracketSizes[k] += 1\<close>.\<close>

fun counter_incr :: "nat \<Rightarrow> (nat \<times> nat) list \<Rightarrow> (nat \<times> nat) list" where
  "counter_incr k [] = [(k, 1)]"
| "counter_incr k ((k', c) # rest) =
     (if k = k' then (k', c + 1) # rest else (k', c) # counter_incr k rest)"

definition count_sizes :: "triple list list \<Rightarrow> (nat \<times> nat) list" where
  "count_sizes groups = foldl (\<lambda>bracketSizes expGroup. counter_incr (length expGroup) bracketSizes) [] groups"

text \<open>\<^verbatim>\<open>Counter.most_common()\<close> is
  \<^verbatim>\<open>sorted(self.items(), key=itemgetter(1), reverse=True)\<close>: a stable sort by
  descending count.\<close>

definition most_common :: "(nat \<times> nat) list \<Rightarrow> (nat \<times> nat) list" where
  "most_common items = rev (sort_key snd (rev items))"

text \<open>One iteration of the loop that keeps \<^verbatim>\<open>bestTuple\<close>.\<close>

fun best_step :: "(nat \<times> nat) option \<Rightarrow> nat \<times> nat \<Rightarrow> (nat \<times> nat) option" where
  "best_step None t = Some t"
| "best_step (Some bestTuple) t =
     (if snd t > snd bestTuple then Some t
      else if snd t = snd bestTuple then Some (if fst t > fst bestTuple then t else bestTuple)
      else Some bestTuple)"

text \<open>From \<^verbatim>\<open>bracketSizes = Counter()\<close> to the end of \<^verbatim>\<open>update\<close>: the value given
  to \<^verbatim>\<open>nbBrackets\<close>. \<^verbatim>\<open>bestTuple[0]\<close> on \<^verbatim>\<open>None\<close> would be a TypeError.\<close>

definition selectBrackets :: "triple list list \<Rightarrow> error + int" where
  "selectBrackets groups =
     (if length groups = 1
      then (if length (remdups (groups ! 0)) = 1 then Inr 1
            else Inr (int (length (groups ! 0))))
      else (let bracketSizes = count_sizes groups
            in if length bracketSizes = 0 then Inr 0
               else (case foldl best_step None (most_common bracketSizes) of
                       None \<Rightarrow> Inl TypeError
                     | Some bestTuple \<Rightarrow> Inr (int (fst bestTuple)))))"

subsection \<open>update\<close>

text \<open>
  What \<^verbatim>\<open>update\<close> reads of the node graph. \<^verbatim>\<open>getLinkParam(recursive=True)\<close>
  returns an attribute of another node or \<^verbatim>\<open>None\<close>; of that node, \<^verbatim>\<open>update\<close>
  asks whether it has a \<^verbatim>\<open>viewpoints\<close> attribute (\<open>viewpoints\<close>: its value) and
  whether it has an \<^verbatim>\<open>input\<close> attribute (\<open>inputLink\<close>: what that one is linked to).
\<close>

datatype upstream =
  Upstream (viewpoints: "viewpoint list option") (inputLink: "upstream option option")

record node =
  isInstance :: bool
  hasUserNbBrackets :: bool
  userNbBrackets :: int
  linkParam :: "upstream option"
  nbBrackets :: int
  validValue :: bool

text \<open>The automatic detection, from \<^verbatim>\<open>inputs = []\<close> on.\<close>

definition detectBrackets :: "(string \<Rightarrow> pyfloat option) \<Rightarrow> viewpoint list \<Rightarrow> node \<Rightarrow> error + node" where
  "detectBrackets parseFloat vps n =
     (case collect parseFloat vps of
        Raise e \<Rightarrow> Inl e
      | Return k \<Rightarrow> Inr (n\<lparr>nbBrackets := k\<rparr>)
      | Continue inputs \<Rightarrow>
          ebind (groupExposures (py_sort inputs)) (\<lambda>groups.
          ebind (selectBrackets groups) (\<lambda>k. Inr (n\<lparr>nbBrackets := k\<rparr>))))"

text \<open>\<open>isInstance\<close> is \<^verbatim>\<open>isinstance(node.nodeDesc, cls)\<close>; \<open>hasUserNbBrackets\<close> is
  \<^verbatim>\<open>"userNbBrackets" in node.getAttributes().keys()\<close>; \<open>validValue\<close> is
  \<^verbatim>\<open>node.userNbBrackets.validValue\<close>.\<close>

definition update :: "(string \<Rightarrow> pyfloat option) \<Rightarrow> node \<Rightarrow> error + node" where
  "update parseFloat n0 =
     (if \<not> isInstance n0 then Inl ValueError
      else if \<not> hasUserNbBrackets n0 then Inr n0
      else
        let n = n0\<lparr>validValue := True\<rparr>
        in (case linkParam n of
             None \<Rightarrow> Inr (n\<lparr>nbBrackets := 0\<rparr>)
           | Some cameraInitOutput \<Rightarrow>
               if userNbBrackets n \<noteq> 0
               then Inr ((case viewpoints cameraInitOutput of
                            Some vps \<Rightarrow>
                              n\<lparr>validValue := \<not> (int (length vps) mod userNbBrackets n \<noteq> 0)\<rparr>
                          | None \<Rightarrow> n)
                         \<lparr>nbBrackets := userNbBrackets n\<rparr>)
               else
                 let cameraInitOutput' =
                       (if viewpoints cameraInitOutput = None
                        then (case inputLink cameraInitOutput of
                                Some l \<Rightarrow> l
                              | None \<Rightarrow> Some cameraInitOutput)
                        else Some cameraInitOutput)
                 in (case cameraInitOutput' of
                       None \<Rightarrow> Inr (n\<lparr>nbBrackets := 0\<rparr>)
                     | Some c \<Rightarrow>
                         (case viewpoints c of
                            None \<Rightarrow> Inr (n\<lparr>nbBrackets := 0\<rparr>)
                          | Some vps \<Rightarrow> detectBrackets parseFloat vps n))))"

subsection \<open>The interface of the detection\<close>

text \<open>
  \<^verbatim>\<open>update\<close> run on a node of this type, of the current version, whose
  \<^verbatim>\<open>input\<close> is linked to a node with the viewpoints \<open>vps\<close>, with the user-forced
  count \<open>u\<close>: the \<^verbatim>\<open>nbBrackets\<close> it reports and the validity flag of
  \<^verbatim>\<open>userNbBrackets\<close>. The two outputs start from the defaults of their attributes.
\<close>

definition bracketDetection ::
  "(string \<Rightarrow> pyfloat option) \<Rightarrow> int \<Rightarrow> viewpoint list \<Rightarrow> error + int \<times> bool" where
  "bracketDetection parseFloat u vps =
     map_sum id (\<lambda>n. (nbBrackets n, validValue n))
       (update parseFloat
          \<lparr>isInstance = True, hasUserNbBrackets = True, userNbBrackets = u,
           linkParam = Some (Upstream (Some vps) None), nbBrackets = 0, validValue = True\<rparr>)"

subsection \<open>Notions of the specification\<close>

text \<open>A shutter speed or an aperture is usable when it is a finite positive real.\<close>

definition usable :: "pyfloat \<Rightarrow> bool" where
  "usable x = (isfinite x \<and> fgt x (Fin 0))"

text \<open>
  The exposure value as the specification words it: \<open>- 1.0\<close> when neither the shutter
  speed nor the aperture is usable; otherwise the shutter speed (1/200 when unusable)
  times the square of the effective reference aperture over the effective aperture.
  The aperture is replaced, when unusable, by the reference aperture (by 2.0 when that
  one is not valid); the effective aperture is the aperture times
  \<open>sqrt (sensitivity / refIso)\<close> when both exceed \<open>1e-6\<close>, times 1 otherwise. The
  effective reference aperture is the reference aperture when valid, else
  \<open>ownReference aperture effectiveAperture\<close>: the two readings of "the image's own
  aperture" are the two functions below. The formula is computed in the arithmetic
  of the rounding \<open>rnd\<close>.
\<close>

definition exposureFormula ::
  "(real \<Rightarrow> pyfloat) \<Rightarrow> (pyfloat \<Rightarrow> pyfloat \<Rightarrow> pyfloat) \<Rightarrow> triple \<Rightarrow> pyfloat \<Rightarrow> pyfloat \<Rightarrow>
   error + pyfloat" where
  "exposureFormula rnd ownReference e refIso refFnumber =
     (case e of (aperture, shutterSpeed, sensitivity) \<Rightarrow>
        if \<not> usable shutterSpeed \<and> \<not> usable aperture then Inr (Fin (- 1))
        else
          let shutter = (if usable shutterSpeed then shutterSpeed else rnd (1 / 200));
              aperture' = (if usable aperture then aperture
                           else if usable refFnumber then refFnumber else Fin 2)
          in ebind (if fgt sensitivity (rnd (1 / 1000000)) \<and> fgt refIso (rnd (1 / 1000000))
                    then ebind (fdiv rnd sensitivity refIso) (fsqrt rnd)
                    else Inr (Fin 1))
               (\<lambda>factor.
                  let effectiveAperture = fmul rnd aperture' factor;
                      effectiveReferenceAperture =
                        (if usable refFnumber then refFnumber
                         else ownReference aperture' effectiveAperture)
                  in ebind (fdiv rnd effectiveReferenceAperture effectiveAperture)
                       (\<lambda>ratio. Inr (fmul rnd shutter (fmul rnd ratio ratio)))))"

text \<open>The image's own aperture, scaled by the sensitivity.\<close>

definition scaledAperture :: "pyfloat \<Rightarrow> pyfloat \<Rightarrow> pyfloat" where
  "scaledAperture aperture effectiveAperture = effectiveAperture"

text \<open>The image's own aperture, before the scaling by the sensitivity.\<close>

definition unscaledAperture :: "pyfloat \<Rightarrow> pyfloat \<Rightarrow> pyfloat" where
  "unscaledAperture aperture effectiveAperture = aperture"

text \<open>
  Two keys differ only by case, spaces or a namespace prefix when they have the same
  normal form: lower case, spaces removed, and the text up to the last \<open>:\<close> and then up
  to the last \<open>/\<close> removed.
\<close>

definition normalize_key :: "string \<Rightarrow> string" where
  "normalize_key k = split_last CHR ''/'' (split_last CHR '':'' (remove_spaces (lower k)))"

definition same_spelling :: "string \<Rightarrow> string \<Rightarrow> bool" where
  "same_spelling k1 k2 = (normalize_key k1 = normalize_key k2)"

text \<open>An alias without space; an alias without space, \<open>:\<close> or \<open>/\<close>.\<close>

definition spaceless :: "string \<Rightarrow> bool" where
  "spaceless a = (CHR '' '' \<notin> set a)"

definition unqualified :: "string \<Rightarrow> bool" where
  "unqualified a = (CHR '' '' \<notin> set a \<and> CHR '':'' \<notin> set a \<and> CHR ''/'' \<notin> set a)"

text \<open>A triple without \<open>nan\<close>.\<close>

fun nanFree :: "triple \<Rightarrow> bool" where
  "nanFree (a, b, c) = (a \<noteq> NaN \<and> b \<noteq> NaN \<and> c \<noteq> NaN)"

text \<open>
  A triple whose f-number is positive and below \<open>2 ^ - 1000\<close>: so small that its
  product with the sensitivity factor can round to zero.
\<close>

definition tinyAperture :: "triple \<Rightarrow> bool" where
  "tinyAperture e = (case fst e of Fin a \<Rightarrow> 0 < a \<and> a < 2 powr (- 1000) | _ \<Rightarrow> False)"


definition apertureInRange :: "pyval \<Rightarrow> bool" where
  "apertureInRange v = (case ebind (halve v) fpow2 of Inl e \<Rightarrow> False | Inr f \<Rightarrow> True)"


text \<open>The order of \<^verbatim>\<open><\<close> on floats without \<open>nan\<close>, and on the tuples of such
  floats, as keys in a linear order.\<close>

fun float_key :: "pyfloat \<Rightarrow> nat \<times> real" where
  "float_key NInf = (0, 0)"
| "float_key (Fin x) = (1, x)"
| "float_key PInf = (2, 0)"
| "float_key NaN = (3, 0)"

fun input_key :: "string \<times> triple \<Rightarrow> string \<times> (nat \<times> real) \<times> (nat \<times> real) \<times> (nat \<times> real)" where
  "input_key (p, a, b, c) = (p, float_key a, float_key b, float_key c)"

subsection \<open>Auxiliary notions\<close>

text \<open>One iteration of the loop of \<open>walk\<close> on the image \<open>(p, e)\<close> whose exposure
  value is \<open>cur\<close>.\<close>

definition walk_step :: "string \<Rightarrow> triple \<Rightarrow> pyfloat \<Rightarrow> walk_state \<Rightarrow> walk_state" where
  "walk_step p e cur s =
    (if (case prevExposure s of None \<Rightarrow> False | Some pe \<Rightarrow> pe \<noteq> Fin 0 \<and> flt cur pe) \<or>
        (prevPath s \<noteq> None \<and> prevPath s \<noteq> Some (dirname p))
     then s\<lparr>exposureGroups := exposureGroups s @ [exposures s], exposures := [e]\<rparr>
     else s\<lparr>exposures := exposures s @ [e]\<rparr>)
    \<lparr>prevPath := Some (dirname p), prevExposure := Some cur\<rparr>"

text \<open>\<open>c\<close> is the size histogram of the list of sizes \<open>ls\<close>: one entry for each size
  that occurs, with its number of occurrences.\<close>

definition histogram_of :: "nat list \<Rightarrow> (nat \<times> nat) list \<Rightarrow> bool" where
  "histogram_of ls c \<longleftrightarrow>
     distinct (map fst c) \<and>
     map_of c = (\<lambda>k. if k \<in> set ls then Some (count_list ls k) else None)"

text \<open>What a viewpoint contributes to \<^verbatim>\<open>inputs\<close>, when it does.\<close>

definition viewpointInput ::
  "(string \<Rightarrow> pyfloat option) \<Rightarrow> viewpoint \<Rightarrow> (string \<times> triple) option" where
  "viewpointInput parseFloat vp =
     (case metadata vp of
        None \<Rightarrow> None
      | Some d \<Rightarrow>
          (case readExposure parseFloat d of
             Continue t \<Rightarrow> Some (path vp, t)
           | Raise e \<Rightarrow> None
           | Return n \<Rightarrow> None))"

subsection \<open>Sample inputs\<close>

text \<open>An image at \<open>p\<close> with the f-number 2 and the exposure time \<open>t\<close>, and the triple
  read from it.\<close>

definition shot :: "string \<Rightarrow> int \<Rightarrow> viewpoint" where
  "shot p t = \<lparr>path = p, metadata = Some [(''FNumber'', PInt 2), (''ExposureTime'', PInt t)]\<rparr>"

definition shotTriple :: "int \<Rightarrow> triple" where
  "shotTriple t = (Fin 2, Fin (of_int t), Fin (- 1))"

text \<open>Four directories: brackets of 3, 5, 3 and 5 images.\<close>

definition mixedBrackets :: "viewpoint list" where
  "mixedBrackets =
     [shot ''a/1'' 1, shot ''a/2'' 2, shot ''a/3'' 3,
      shot ''b/1'' 1, shot ''b/2'' 2, shot ''b/3'' 3, shot ''b/4'' 4, shot ''b/5'' 5,
      shot ''c/1'' 1, shot ''c/2'' 2, shot ''c/3'' 3,
      shot ''d/1'' 1, shot ''d/2'' 2, shot ''d/3'' 3, shot ''d/4'' 4, shot ''d/5'' 5]"

definition mixedInputs :: "(string \<times> triple) list" where
  "mixedInputs =
     [(''a/1'', shotTriple 1), (''a/2'', shotTriple 2), (''a/3'', shotTriple 3),
      (''b/1'', shotTriple 1), (''b/2'', shotTriple 2), (''b/3'', shotTriple 3),
      (''b/4'', shotTriple 4), (''b/5'', shotTriple 5),
      (''c/1'', shotTriple 1), (''c/2'', shotTriple 2), (''c/3'', shotTriple 3),
      (''d/1'', shotTriple 1), (''d/2'', shotTriple 2), (''d/3'', shotTriple 3),
      (''d/4'', shotTriple 4), (''d/5'', shotTriple 5)]"

definition mixedGroups :: "triple list list" where
  "mixedGroups =
     [[shotTriple 1, shotTriple 2, shotTriple 3],
      [shotTriple 1, shotTriple 2, shotTriple 3, shotTriple 4, shotTriple 5],
      [shotTriple 1, shotTriple 2, shotTriple 3],
      [shotTriple 1, shotTriple 2, shotTriple 3, shotTriple 4, shotTriple 5]]"

text \<open>One directory: three images, two of them with the same exposure.\<close>

definition repeatedExposure :: "viewpoint list" where
  "repeatedExposure = [shot ''d/1'' 1, shot ''d/2'' 1, shot ''d/3'' 2]"

definition repeatedInputs :: "(string \<times> triple) list" where
  "repeatedInputs = [(''d/1'', shotTriple 1), (''d/2'', shotTriple 1), (''d/3'', shotTriple 2)]"



text \<open>An image whose f-number is the smallest positive double, \<^verbatim>\<open>5e-324\<close>, and the
  triple read from it.\<close>

definition subnormalShot :: viewpoint where
  "subnormalShot =
     \<lparr>path = ''d/a.jpg'',
      metadata = Some [(''FNumber'', PFloat (Fin (1 / 2 ^ 1074))), (''ExposureTime'', PInt 1),
                       (''ISO'', PInt 1)]\<rparr>"

definition subnormalTriple :: triple where
  "subnormalTriple = (Fin (1 / 2 ^ 1074), Fin 1, Fin 1)"

text \<open>A node of this type, of the current version, with the user-forced count \<open>u\<close>
  and the link \<open>l\<close> of its \<^verbatim>\<open>input\<close>; \<open>k\<close> viewpoints without metadata.\<close>

definition forcedNode :: "int \<Rightarrow> upstream option \<Rightarrow> node" where
  "forcedNode u l =
     \<lparr>isInstance = True, hasUserNbBrackets = True, userNbBrackets = u, linkParam = l,
      nbBrackets = 0, validValue = True\<rparr>"

definition blankViewpoints :: "nat \<Rightarrow> viewpoint list" where
  "blankViewpoints k = replicate k \<lparr>path = ''a.jpg'', metadata = None\<rparr>"

section \<open>Properties\<close>

subsection \<open>Rounding to doubles\<close>

text \<open>
  What is used of \<open>binary64\<close>: the rounded value is within half an \<open>ulp\<close> of the
  real; a real of at most \<open>2 ^ - 1075\<close> in magnitude rounds to zero, a larger one to
  a double of the same sign and at least half of it; a real from \<open>2 ^ 1024\<close> on
  rounds to \<open>inf\<close>; a real \<open>m * 2 ^ k\<close> with \<open>\<bar>m\<bar> < 2 ^ 53\<close> and \<open>- 1074 \<le> k\<close> in
  the range of doubles is a double, and rounds to itself.
\<close>

lemma rne_cases: "rne y = \<lfloor>y\<rfloor> \<or> rne y = \<lfloor>y\<rfloor> + 1"
  by (simp add: rne_def Let_def)

lemma rne_bound: "\<bar>of_int (rne y) - y\<bar> \<le> 1 / 2"
  unfolding rne_def Let_def by (auto; linarith)

lemma rne_of_int [simp]: "rne (of_int n) = n"
  by (simp add: rne_def)

lemma rne_ge: "of_int n \<le> y \<Longrightarrow> n \<le> rne y"
proof -
  assume "of_int n \<le> y"
  then have "n \<le> \<lfloor>y\<rfloor>" by (simp add: le_floor_iff)
  then show ?thesis using rne_cases[of y] by auto
qed

lemma rne_le: "y \<le> of_int n \<Longrightarrow> rne y \<le> n"
proof -
  assume a: "y \<le> of_int n"
  show ?thesis
  proof (cases "y = of_int n")
    case True then show ?thesis by simp
  next
    case False
    with a have "y < of_int n" by simp
    then have "\<lfloor>y\<rfloor> < n" by (simp add: floor_less_iff)
    then show ?thesis using rne_cases[of y] by auto
  qed
qed

lemma rne_half: "\<bar>y\<bar> \<le> 1 / 2 \<Longrightarrow> rne y = 0"
proof -
  assume a: "\<bar>y\<bar> \<le> 1 / 2"
  have "\<bar>of_int (rne y) - y\<bar> \<le> 1 / 2" by (rule rne_bound)
  consider "y = 1/2" | "y = - 1/2" | "\<bar>y\<bar> < 1/2" using a by linarith
  then show ?thesis
  proof cases
    case 1
    have "rne (1 / 2) = 0" by (simp add: rne_def)
    then show ?thesis unfolding 1 .
  next
    case 2
    have "\<lfloor>- 1 / 2 :: real\<rfloor> = - 1" by (simp add: floor_eq_iff)
    then have "rne (- 1 / 2) = 0" by (simp add: rne_def)
    then show ?thesis unfolding 2 .
  next
    case 3
    have "\<bar>real_of_int (rne y)\<bar> < 1" using rne_bound[of y] 3 by linarith
    then show ?thesis by linarith
  qed
qed

lemma ulp_pos [simp]: "0 < ulp x"
  by (simp add: ulp_def)


lemma rne_pos: "1 / 2 < y \<Longrightarrow> 1 \<le> rne y"
  using rne_bound[of y] by linarith

lemma rne_error: "\<bar>of_int (rne (x / ulp x)) * ulp x - x\<bar> \<le> ulp x / 2"
proof -
  have "\<bar>of_int (rne (x / ulp x)) - x / ulp x\<bar> * ulp x \<le> 1 / 2 * ulp x"
    by (rule mult_right_mono[OF rne_bound]) (rule less_imp_le[OF ulp_pos])
  moreover have "\<bar>of_int (rne (x / ulp x)) - x / ulp x\<bar> * ulp x
      = \<bar>of_int (rne (x / ulp x)) * ulp x - x\<bar>"
  proof -
    have "\<bar>of_int (rne (x / ulp x)) - x / ulp x\<bar> * ulp x
        = \<bar>(of_int (rne (x / ulp x)) - x / ulp x) * ulp x\<bar>"
      by (simp add: abs_mult abs_of_pos[OF ulp_pos])
    also have "(of_int (rne (x / ulp x)) - x / ulp x) * ulp x
        = of_int (rne (x / ulp x)) * ulp x - x"
      using less_imp_neq[OF ulp_pos[of x]] by (auto simp: field_simps)
    finally show ?thesis .
  qed
  ultimately show ?thesis by simp
qed

lemma bexp_ge: "- 1022 \<le> bexp x"
proof (cases "\<bar>x\<bar> < 2 powr (- 1022)")
  case True then show ?thesis by (simp add: bexp_def)
next
  case False
  then have a: "2 powr (- 1022) \<le> \<bar>x\<bar>" by simp
  then have "0 < \<bar>x\<bar>" by (rule less_le_trans[rotated]) simp
  with a have "- 1022 \<le> log 2 \<bar>x\<bar>" by (simp add: le_log_iff)
  then have "- 1022 \<le> \<lfloor>log 2 \<bar>x\<bar>\<rfloor>" by (simp add: le_floor_iff)
  with False show ?thesis by (simp add: bexp_def)
qed

lemma bexp_lower: "2 powr (- 1022) \<le> \<bar>x\<bar> \<Longrightarrow> 2 powr (of_int (bexp x)) \<le> \<bar>x\<bar>"
proof -
  assume a: "2 powr (- 1022) \<le> \<bar>x\<bar>"
  then have p: "0 < \<bar>x\<bar>" by (rule less_le_trans[rotated]) simp
  from a have b: "bexp x = \<lfloor>log 2 \<bar>x\<bar>\<rfloor>" by (simp add: bexp_def)
  from floor_log_eq_powr_iff[OF p, of 2 "bexp x"] b show ?thesis by simp
qed

lemma bexp_upper: "\<bar>x\<bar> < 2 powr (of_int (bexp x) + 1)"
proof (cases "\<bar>x\<bar> < 2 powr (- 1022)")
  case True
  then have "bexp x = - 1022" by (simp add: bexp_def)
  moreover have "(2::real) powr (- 1022) \<le> 2 powr (- 1021)" by simp
  moreover note less_le_trans[OF True this]
  ultimately show ?thesis by simp
next
  case False
  then have a: "2 powr (- 1022) \<le> \<bar>x\<bar>" by simp
  then have p: "0 < \<bar>x\<bar>" by (rule less_le_trans[rotated]) simp
  from a have b: "bexp x = \<lfloor>log 2 \<bar>x\<bar>\<rfloor>" by (simp add: bexp_def)
  from floor_log_eq_powr_iff[OF p, of 2 "bexp x"] b show ?thesis by simp
qed

lemma ulp_subnormal: "\<bar>x\<bar> < 2 powr (- 1022) \<Longrightarrow> ulp x = 2 powr (- 1074)"
  by (simp add: ulp_def bexp_def)

lemma ulp_normal: "2 powr (- 1022) \<le> \<bar>x\<bar> \<Longrightarrow> ulp x \<le> \<bar>x\<bar> * 2 powr (- 52)"
proof -
  assume a: "2 powr (- 1022) \<le> \<bar>x\<bar>"
  have "ulp x = 2 powr (of_int (bexp x)) * 2 powr (- 52)"
    unfolding ulp_def by (simp add: powr_add[symmetric])
  also have "\<dots> \<le> \<bar>x\<bar> * 2 powr (- 52)"
    by (rule mult_right_mono[OF bexp_lower[OF a]]) simp
  finally show ?thesis .
qed


lemma binary64_nonneg:
  assumes "0 \<le> x"
  shows "binary64 x = PInf \<or>
         (\<exists>r. binary64 x = Fin r \<and> 0 \<le> r \<and> r \<le> 2 * x \<and>
              (x \<le> 2 powr (- 1075) \<longrightarrow> r = 0) \<and> (2 powr (- 1075) < x \<longrightarrow> x / 2 \<le> r))"
proof -
  define r where "r = of_int (rne (x / ulp x)) * ulp x"
  have err: "\<bar>r - x\<bar> \<le> ulp x / 2" unfolding r_def by (rule rne_error)
  have q0: "0 \<le> x / ulp x" using assms less_imp_le[OF ulp_pos[of x]] by (rule divide_nonneg_nonneg)
  then have "0 \<le> rne (x / ulp x)" by (intro rne_ge) simp
  then have r0: "0 \<le> r" unfolding r_def
    by (intro mult_nonneg_nonneg less_imp_le[OF ulp_pos]) simp
  have bnd: "r \<le> 2 * x \<and> (x \<le> 2 powr (- 1075) \<longrightarrow> r = 0) \<and> (2 powr (- 1075) < x \<longrightarrow> x / 2 \<le> r)"
  proof (cases "x < 2 powr (- 1022)")
    case True
    then have u: "ulp x = 2 powr (- 1074)" using assms by (simp add: ulp_subnormal)
    have h: "(2::real) powr (- 1075) = 2 powr (- 1074) / 2"
      by (simp add: powr_minus field_simps)
    show ?thesis
    proof (cases "x \<le> 2 powr (- 1075)")
      case le: True
      then have "x / ulp x \<le> 1 / 2" unfolding u h by (simp add: field_simps)
      with q0 have "\<bar>x / ulp x\<bar> \<le> 1 / 2" by (simp only: abs_of_nonneg)
      then have "rne (x / ulp x) = 0" by (rule rne_half)
      then have "r = 0" by (simp add: r_def)
      with le assms show ?thesis by simp
    next
      case gt: False
      then have g: "2 powr (- 1074) / 2 < x" unfolding h by simp
      then have "1 / 2 < x / ulp x" unfolding u by (simp add: field_simps)
      then have "1 \<le> rne (x / ulp x)" by (rule rne_pos)
      then have "1 \<le> (of_int (rne (x / ulp x)) :: real)" by simp
      then have "1 * ulp x \<le> r" unfolding r_def
        by (rule mult_right_mono) (rule less_imp_le[OF ulp_pos])
      then have ru: "2 powr (- 1074) \<le> r" by (simp add: u)
      from err have "\<bar>r - x\<bar> \<le> 2 powr (- 1074) / 2" by (simp add: u)
      with ru g gt show ?thesis by (auto simp: abs_le_iff; linarith)
    qed
  next
    case False
    then have n: "2 powr (- 1022) \<le> \<bar>x\<bar>" by simp
    have "ulp x \<le> \<bar>x\<bar> * 2 powr (- 52)" by (rule ulp_normal[OF n])
    also have "\<dots> \<le> \<bar>x\<bar> * 1" by (rule mult_left_mono) (simp_all add: powr_minus field_simps)
    finally have ux: "ulp x \<le> x" using assms by simp
    have "(2::real) powr (- 1075) < 2 powr (- 1022)" by simp
    with False have "2 powr (- 1075) < x" by linarith
    with err ux show ?thesis by (auto simp: abs_le_iff; linarith)
  qed
  show ?thesis
  proof (cases "2 ^ 1024 \<le> \<bar>r\<bar>")
    case True
    then have "r \<noteq> 0" by auto
    with bnd assms have "0 < x" by (cases "x = 0") auto
    with True show ?thesis by (simp add: binary64_def r_def[symmetric])
  next
    case False
    then have "binary64 x = Fin r" by (simp add: binary64_def r_def[symmetric])
    with r0 bnd show ?thesis by simp
  qed
qed

lemma binary64_finite:
  assumes "\<bar>x\<bar> < 2 ^ 1023"
  shows "\<exists>r. binary64 x = Fin r"
proof -
  define r where "r = of_int (rne (x / ulp x)) * ulp x"
  have err: "\<bar>r - x\<bar> \<le> ulp x / 2" unfolding r_def by (rule rne_error)
  have "ulp x \<le> 2 ^ 1023"
  proof (cases "\<bar>x\<bar> < 2 powr (- 1022)")
    case True
    then have "ulp x = 2 powr (- 1074)" by (simp add: ulp_subnormal)
    also have "\<dots> \<le> 2 powr 0" by (subst powr_le_cancel_iff) simp_all
    also have "\<dots> \<le> 2 ^ 1023" by simp
    finally show ?thesis .
  next
    case False
    then have n: "2 powr (- 1022) \<le> \<bar>x\<bar>" by simp
    have "ulp x \<le> \<bar>x\<bar> * 2 powr (- 52)" by (rule ulp_normal[OF n])
    also have "\<dots> \<le> \<bar>x\<bar> * 1" by (rule mult_left_mono) (simp_all add: powr_minus field_simps)
    finally show ?thesis using assms by simp
  qed
  with err assms have "\<bar>r\<bar> < 2 ^ 1023 + 2 ^ 1023 / 2" by (auto simp: abs_le_iff abs_less_iff; linarith)
  then have "\<bar>r\<bar> < 2 ^ 1024" by simp
  then show ?thesis by (simp add: binary64_def r_def[symmetric])
qed


lemma binary64_representable:
  assumes "\<bar>m\<bar> < 2 ^ 53" "- 1074 \<le> k" "\<bar>of_int m * 2 powr (of_int k) :: real\<bar> < 2 ^ 1024"
  shows "binary64 (of_int m * 2 powr (of_int k)) = Fin (of_int m * 2 powr (of_int k))"
proof -
  define x :: real where "x = of_int m * 2 powr (of_int k)"
  have le: "bexp x \<le> k + 52"
  proof (cases "\<bar>x\<bar> < 2 powr (- 1022)")
    case True
    then show ?thesis using assms(2) by (simp add: bexp_def)
  next
    case False
    then have n: "2 powr (- 1022) \<le> \<bar>x\<bar>" by simp
    have "\<bar>x\<bar> = of_int \<bar>m\<bar> * 2 powr (of_int k)" by (simp add: x_def abs_mult)
    also have "\<dots> < 2 ^ 53 * 2 powr (of_int k)"
    proof (rule mult_strict_right_mono)
      have "real_of_int \<bar>m\<bar> < real_of_int (2 ^ 53)" using assms(1) by (simp only: of_int_less_iff)
      then show "real_of_int \<bar>m\<bar> < 2 ^ 53" by simp
    qed simp
    also have "\<dots> = 2 powr (of_int (k + 52) + 1)" by (simp add: powr_add)
    finally have "\<bar>x\<bar> < 2 powr (of_int (k + 52) + 1)" .
    with bexp_lower[OF n] have "(2::real) powr (of_int (bexp x)) < 2 powr (of_int (k + 52) + 1)"
      by (rule le_less_trans)
    then have "real_of_int (bexp x) < real_of_int (k + 52) + 1"
      by (subst (asm) powr_less_cancel_iff) simp_all
    then show ?thesis by linarith
  qed
  define j where "j = nat (k + 52 - bexp x)"
  have j: "of_int k - (of_int (bexp x) - 52) = real j" using le by (simp add: j_def)
  have "x / ulp x = of_int m * (2 powr (of_int k) / 2 powr (of_int (bexp x) - 52))"
    by (simp add: x_def ulp_def)
  also have "2 powr (of_int k) / 2 powr (of_int (bexp x) - 52) = (2::real) powr (real j)"
    unfolding powr_diff[symmetric] j ..
  also have "\<dots> = 2 ^ j" by (simp add: powr_realpow)
  finally have "x / ulp x = of_int (m * 2 ^ j)" by simp
  then have "rne (x / ulp x) = m * 2 ^ j" by (simp only: rne_of_int)
  then have "of_int (rne (x / ulp x)) * ulp x = (x / ulp x) * ulp x"
    using \<open>x / ulp x = of_int (m * 2 ^ j)\<close> by simp
  also have "\<dots> = x" using less_imp_neq[OF ulp_pos[of x]] by auto
  finally have "of_int (rne (x / ulp x)) * ulp x = x" .
  then have "binary64 x = Fin x" using assms(3) by (simp add: binary64_def x_def[symmetric])
  then show ?thesis by (simp add: x_def)
qed

lemma binary64_dyadic:
  assumes "\<bar>n\<bar> < 2 ^ 53" "j \<le> 1074"
  shows "binary64 (of_int n / 2 ^ j) = Fin (of_int n / 2 ^ j)"
proof -
  have p: "(2::real) powr (of_int (- int j)) = 1 / 2 ^ j"
    by (simp add: powr_minus powr_realpow field_simps)
  have "real_of_int \<bar>n\<bar> < real_of_int (2 ^ 53)" using assms(1) by (simp only: of_int_less_iff)
  then have "\<bar>real_of_int n\<bar> < 2 ^ 53" by simp
  moreover have "(1::real) \<le> 2 ^ j" by simp
  ultimately have "\<bar>real_of_int n\<bar> * 1 < 2 ^ 53 * 2 ^ j"
    by (intro mult_less_le_imp_less) simp_all
  then have "\<bar>real_of_int n / 2 ^ j\<bar> < 2 ^ 53" by (simp add: field_simps)
  also have "(2::real) ^ 53 < 2 ^ 1024" by simp
  finally have lt: "\<bar>real_of_int n / 2 ^ j\<bar> < 2 ^ 1024" .
  have eq: "real_of_int n * 2 powr (of_int (- int j)) = of_int n / 2 ^ j"
    unfolding p by simp
  have k: "- 1074 \<le> - int j" using assms(2) by simp
  have "\<bar>real_of_int n * 2 powr (of_int (- int j))\<bar> < 2 ^ 1024" unfolding eq by (rule lt)
  from binary64_representable[OF assms(1) k this] show ?thesis unfolding eq .
qed

lemma binary64_of_int: "\<bar>n\<bar> < 2 ^ 53 \<Longrightarrow> binary64 (of_int n) = Fin (of_int n)"
  using binary64_dyadic[of n 0] by simp

lemma binary64_zero [simp]: "binary64 0 = Fin 0"
  using binary64_of_int[of 0] by simp

lemma binary64_one [simp]: "binary64 1 = Fin 1"
  using binary64_of_int[of 1] by simp

lemma binary64_numeral [simp]:
  "(numeral w :: int) < 2 ^ 53 \<Longrightarrow> binary64 (numeral w) = Fin (numeral w)"
  using binary64_of_int[of "numeral w"] by simp

lemma binary64_fraction [simp]:
  "binary64 (1 / 2) = Fin (1 / 2)"
  "binary64 (1 / 4) = Fin (1 / 4)"
  "binary64 (3 / 4) = Fin (3 / 4)"
  "binary64 (5 / 4) = Fin (5 / 4)"
  "binary64 (1 / 8) = Fin (1 / 8)"
  "binary64 (1 / 16) = Fin (1 / 16)"
  using binary64_dyadic[of 1 1] binary64_dyadic[of 1 2] binary64_dyadic[of 3 2]
    binary64_dyadic[of 5 2] binary64_dyadic[of 1 3] binary64_dyadic[of 1 4]
  by simp_all

lemma int_to_float_small:
  "\<bar>n\<bar> \<le> 2048 \<Longrightarrow> int_to_float n = Inr (Fin (of_int n))"
  using binary64_of_int[of n] by (simp add: int_to_float_def)

text \<open>The double of the literal \<^verbatim>\<open>1e-6\<close> lies between \<open>5e-7\<close> and \<open>2e-6\<close>.\<close>

lemma binary64_micro:
  "\<exists>r. binary64 (1 / 1000000) = Fin r \<and> 1 / 2000000 \<le> r \<and> r \<le> 1 / 500000"
proof -
  have small: "(2::real) powr (- 1075) < 1 / 1000000"
  proof -
    have "(2::real) powr (- 1075) \<le> 2 powr (- 20)" by (subst powr_le_cancel_iff) simp_all
    also have "\<dots> < 1 / 1000000" by (simp add: powr_minus field_simps)
    finally show ?thesis .
  qed
  have "\<bar>1 / 1000000 :: real\<bar> < 2 ^ 1023" by simp
  from binary64_finite[OF this] obtain r where r: "binary64 (1 / 1000000) = Fin r" by blast
  from binary64_nonneg[of "1 / 1000000"] r small show ?thesis by auto
qed

lemma flt_micro [simp]: "1 / 500000 < x \<Longrightarrow> flt (binary64 (1 / 1000000)) (Fin x)"
  using binary64_micro by auto

lemma not_flt_micro [simp]: "x \<le> 0 \<Longrightarrow> \<not> flt (binary64 (1 / 1000000)) (Fin x)"
  using binary64_micro by auto

subsection \<open>The exposure value\<close>

lemma ebind_Inr_iff: "ebind m f = Inr y \<longleftrightarrow> (\<exists>x. m = Inr x \<and> f x = Inr y)"
  by (cases m) auto

lemma binary64_sign: "\<forall>x\<ge>0. binary64 x = PInf \<or> (\<exists>r\<ge>0. binary64 x = Fin r)"
  using binary64_nonneg by blast

lemma exact_sign: "\<forall>x\<ge>0. exact x = PInf \<or> (\<exists>r\<ge>0. exact x = Fin r)"
  by (simp add: exact_def)

text \<open>Under a rounding that keeps the sign, a shutter speed times a square is never
  \<open>- 1.0\<close>.\<close>

lemma fmul_square_sentinel:
  assumes nn: "\<forall>x\<ge>0. rnd x = PInf \<or> (\<exists>r\<ge>0. rnd x = Fin r)"
    and s: "s' = PInf \<or> (\<exists>s\<ge>0. s' = Fin s)"
  shows "fmul rnd s' (fmul rnd q q) \<noteq> Fin (- 1)"
proof -
  have sq: "fmul rnd q q = NaN \<or> fmul rnd q q = PInf \<or> (\<exists>y\<ge>0. fmul rnd q q = Fin y)"
  proof (cases q)
    case (Fin x)
    have "0 \<le> x * x" by simp
    with nn have "rnd (x * x) = PInf \<or> (\<exists>r\<ge>0. rnd (x * x) = Fin r)" by blast
    then show ?thesis using Fin by auto
  qed simp_all
  from s show ?thesis
  proof
    assume "s' = PInf"
    with sq show ?thesis by (auto split: if_splits)
  next
    assume "\<exists>s\<ge>0. s' = Fin s"
    then obtain s where s: "0 \<le> s" "s' = Fin s" by blast
    from sq consider "fmul rnd q q = NaN" | "fmul rnd q q = PInf"
      | y where "0 \<le> y" "fmul rnd q q = Fin y" by blast
    then show ?thesis
    proof cases
      case 1 then show ?thesis by (simp add: s)
    next
      case 2 then show ?thesis by (simp add: s)
    next
      case 3
      have "0 \<le> s * y" using s(1) 3(1) by simp
      with nn have "rnd (s * y) = PInf \<or> (\<exists>r\<ge>0. rnd (s * y) = Fin r)" by blast
      then show ?thesis by (auto simp: s 3)
    qed
  qed
qed

lemma usable_Fin: "usable x \<longleftrightarrow> (\<exists>r. x = Fin r \<and> 0 < r)"
  by (cases x) (auto simp: usable_def fgt_def)

lemma getExposure_formula:
  "getExposure rnd (f, s, i) refIso refFnumber =
   exposureFormula rnd unscaledAperture (f, s, i) refIso refFnumber"
  by (auto simp: exposureFormula_def usable_def unscaledAperture_def Let_def)

lemma exposureFormula_sentinel:
  assumes nn: "\<forall>x\<ge>0. rnd x = PInf \<or> (\<exists>r\<ge>0. rnd x = Fin r)"
  shows "exposureFormula rnd own (f, s, i) refIso refFnumber = Inr (Fin (- 1)) \<longleftrightarrow>
         \<not> usable s \<and> \<not> usable f"
proof (cases "\<not> usable s \<and> \<not> usable f")
  case True
  then show ?thesis by (simp add: exposureFormula_def)
next
  case False
  define s' where "s' = (if usable s then s else rnd (1 / 200))"
  have s': "s' = PInf \<or> (\<exists>r\<ge>0. s' = Fin r)"
  proof (cases "usable s")
    case True
    then show ?thesis using usable_Fin[of s] by (auto simp: s'_def)
  next
    case False
    have "(0::real) \<le> 1 / 200" by simp
    with nn have "rnd (1 / 200) = PInf \<or> (\<exists>r\<ge>0. rnd (1 / 200) = Fin r)" by blast
    with False show ?thesis by (simp add: s'_def)
  qed
  have "exposureFormula rnd own (f, s, i) refIso refFnumber \<noteq> Inr (Fin (- 1))"
  proof
    assume "exposureFormula rnd own (f, s, i) refIso refFnumber = Inr (Fin (- 1))"
    then obtain q where "fmul rnd s' (fmul rnd q q) = Fin (- 1)"
      using False unfolding exposureFormula_def s'_def Let_def
      by (auto simp: ebind_Inr_iff)
    then show False using fmul_square_sentinel[OF nn s'] by blast
  qed
  with False show ?thesis by simp
qed

text \<open>In the arithmetic of the reals, on usable values, finite sensitivities above
  \<open>1e-6\<close> and a valid reference aperture, the exposure value in closed form.\<close>

lemma getExposure_closed_form:
  assumes "0 < a" and "0 < s" and "0 < r" and "1 / 1000000 < i" and "1 / 1000000 < ri"
  shows "getExposure exact (Fin a, Fin s, Fin i) (Fin ri) (Fin r) =
         Inr (Fin (s * (r / (a * sqrt (i / ri)))\<^sup>2))"
proof -
  have p: "0 < i" "0 < ri" using assms(4,5) by linarith+
  then have pos: "0 < i / ri" by (rule divide_pos_pos)
  then have q: "\<not> i / ri < 0" by linarith
  have "0 < a * sqrt (i / ri)" using pos assms(1) by simp
  then have n: "a * sqrt (i / ri) \<noteq> 0" by linarith
  have d: "fdiv exact (Fin i) (Fin ri) = Inr (Fin (i / ri))" using p by (simp add: exact_def)
  have k: "fsqrt exact (Fin (i / ri)) = Inr (Fin (sqrt (i / ri)))"
    unfolding fsqrt.simps exact_def using q by (simp only: if_False)
  have m: "fdiv exact (Fin r) (Fin (a * sqrt (i / ri))) = Inr (Fin (r / (a * sqrt (i / ri))))"
    unfolding fdiv.simps exact_def using n by (simp only: if_False pyfloat.case)
  have e: "exact (1 / 1000000) = Fin (1 / 1000000)"
    "fmul exact (Fin a) (Fin (sqrt (i / ri))) = Fin (a * sqrt (i / ri))"
    "fmul exact (Fin (r / (a * sqrt (i / ri)))) (Fin (r / (a * sqrt (i / ri)))) =
       Fin (r / (a * sqrt (i / ri)) * (r / (a * sqrt (i / ri))))"
    "fmul exact (Fin s) (Fin (r / (a * sqrt (i / ri)) * (r / (a * sqrt (i / ri))))) =
       Fin (s * (r / (a * sqrt (i / ri)) * (r / (a * sqrt (i / ri)))))"
    by (simp_all add: exact_def)
  show ?thesis
    unfolding getExposure.simps Let_def
    using assms(1,2,3,4,5)
    by (simp only: fgt_def flt.simps isfinite.simps simp_thms if_True if_False d k m e
        ebind.simps power2_eq_square)
qed

text \<open>
  C3, as stated, fails. With an invalid reference aperture (\<open>refFnumber = 0.0\<close>), the
  aperture 2.0, the shutter speed 1.0 and the sensitivity 400 against \<open>refIso = 100\<close>,
  the sensitivity factor is 2 and the effective aperture 4. The claim takes the
  sensitivity-scaled aperture as the effective reference and gives \<open>1 * (4 / 4)^2 = 1\<close>;
  \<^verbatim>\<open>getExposure\<close> sets \<^verbatim>\<open>lRefFnumber = fnumber\<close> before the scaling and returns
  \<open>1 * (2 / 4)^2 = 1 / 4\<close>. No operation rounds on these values.
\<close>

theorem getExposure_scaled_reference_counterexample:
  "getExposure binary64 (Fin 2, Fin 1, Fin 400) (Fin 100) (Fin 0) = Inr (Fin (1 / 4)) \<and>
   exposureFormula binary64 scaledAperture (Fin 2, Fin 1, Fin 400) (Fin 100) (Fin 0) =
     Inr (Fin 1)"
  by (simp add: fgt_def exposureFormula_def usable_def scaledAperture_def)

text \<open>
  C3, amended. For every triple and all references, \<^verbatim>\<open>getExposure\<close> returns \<open>- 1.0\<close>
  exactly when neither the shutter speed nor the aperture is a finite positive real.
  Otherwise it computes \<open>shutterSpeed' * (effectiveReferenceAperture / effectiveAperture)^2\<close>
  as in the claim, but for the effective reference aperture: it is the reference
  aperture when valid, else the image's own aperture after the substitution for an
  unusable value and before the scaling by the sensitivity. (The division raises
  ZeroDivisionError when the effective aperture is zero, on both sides of the
  equation.) The equation holds operation by operation, in the arithmetic of doubles
  as in any other; the sentinel is characterised in the arithmetic of doubles and in
  that of the reals. In the arithmetic of the reals, on usable values \<open>a\<close>, \<open>s\<close>, a
  valid reference aperture \<open>r\<close> and finite sensitivities \<open>i\<close>, \<open>ri\<close> above \<open>1e-6\<close>,
  the value is \<open>s * (r / (a * sqrt (i / ri)))\<^sup>2\<close>.
\<close>

theorem getExposure_amended:
  "getExposure rnd (aperture, shutterSpeed, sensitivity) refIso refFnumber =
     exposureFormula rnd unscaledAperture (aperture, shutterSpeed, sensitivity) refIso
       refFnumber \<and>
   (getExposure binary64 (aperture, shutterSpeed, sensitivity) refIso refFnumber =
      Inr (Fin (- 1)) \<longleftrightarrow>
      \<not> usable shutterSpeed \<and> \<not> usable aperture) \<and>
   (getExposure exact (aperture, shutterSpeed, sensitivity) refIso refFnumber =
      Inr (Fin (- 1)) \<longleftrightarrow>
      \<not> usable shutterSpeed \<and> \<not> usable aperture) \<and>
   (0 < a \<and> 0 < s \<and> 0 < r \<and> 1 / 1000000 < i \<and> 1 / 1000000 < ri \<longrightarrow>
      getExposure exact (Fin a, Fin s, Fin i) (Fin ri) (Fin r) =
        Inr (Fin (s * (r / (a * sqrt (i / ri)))\<^sup>2)))"
proof -
  have "getExposure rnd (aperture, shutterSpeed, sensitivity) refIso refFnumber =
     exposureFormula rnd unscaledAperture (aperture, shutterSpeed, sensitivity) refIso
       refFnumber"
    by (rule getExposure_formula)
  moreover
  have "getExposure binary64 (aperture, shutterSpeed, sensitivity) refIso refFnumber =
      Inr (Fin (- 1)) \<longleftrightarrow>
      \<not> usable shutterSpeed \<and> \<not> usable aperture"
    unfolding getExposure_formula by (rule exposureFormula_sentinel[OF binary64_sign])
  moreover
  have "getExposure exact (aperture, shutterSpeed, sensitivity) refIso refFnumber =
      Inr (Fin (- 1)) \<longleftrightarrow>
      \<not> usable shutterSpeed \<and> \<not> usable aperture"
    unfolding getExposure_formula by (rule exposureFormula_sentinel[OF exact_sign])
  moreover have "0 < a \<and> 0 < s \<and> 0 < r \<and> 1 / 1000000 < i \<and> 1 / 1000000 < ri \<longrightarrow>
      getExposure exact (Fin a, Fin s, Fin i) (Fin ri) (Fin r) =
        Inr (Fin (s * (r / (a * sqrt (i / ri)))\<^sup>2))"
    using getExposure_closed_form by blast
  ultimately show ?thesis by blast
qed

theorem getExposure_amended_witness:
  "getExposure binary64 (Fin 2, Fin 1, Fin 400) (Fin 100) (Fin 0) = Inr (Fin (1 / 4)) \<and>
   getExposure binary64 (Fin 2, Fin 1, Fin 400) (Fin 100) (Fin 0) \<noteq> Inr (Fin (- 1)) \<and>
   usable (Fin 1) \<and> usable (Fin 2) \<and>
   getExposure exact (Fin 2, Fin 1, Fin 400) (Fin 100) (Fin 1) = Inr (Fin (1 / 16))"
  using getExposure_amended [of binary64 "Fin 2" "Fin 1" "Fin 400" "Fin 100" "Fin 0" 2 1 1 400 100]
  by (simp add: fgt_def exact_def exposureFormula_def usable_def unscaledAperture_def)

subsection \<open>Evaluating the sample inputs\<close>

lemma findMetadata_shot:
  "findMetadata [(''FNumber'', PInt 2), (''ExposureTime'', PInt t)] [''FNumber''] (PStr '''') =
     PInt 2"
  "findMetadata [(''FNumber'', PInt 2), (''ExposureTime'', PInt t)]
     [''ExposureTime'', ''Exif:ShutterSpeedValue'', ''ShutterSpeedValue'', ''ShutterSpeed'']
     (PFloat (Fin (- 1))) = PInt t"
  "findMetadata [(''FNumber'', PInt 2), (''ExposureTime'', PInt t)]
     [''Exif:PhotographicSensitivity'', ''PhotographicSensitivity'',
      ''Photographic Sensitivity'', ''ISO'']
     (PFloat (Fin (- 1))) = PFloat (Fin (- 1))"
  by code_simp+

lemma readExposure_shot:
  "\<bar>t\<bar> \<le> 2048 \<Longrightarrow>
   readExposure parseFloat [(''FNumber'', PInt 2), (''ExposureTime'', PInt t)] =
     Continue (shotTriple t)"
  unfolding readExposure_def findMetadata_shot
  by (simp add: shotTriple_def int_to_float_small)

lemma collect_mixed: "collect parseFloat mixedBrackets = Continue mixedInputs"
  by (simp add: mixedBrackets_def mixedInputs_def shot_def readExposure_shot)

lemma py_sort_mixed: "py_sort mixedInputs = mixedInputs"
  unfolding mixedInputs_def shotTriple_def by code_simp

lemma groupExposures_mixed: "groupExposures mixedInputs = Inr mixedGroups"
  unfolding mixedInputs_def mixedGroups_def shotTriple_def groupExposures_def walk_init_def
  by (simp add: fgt_def dirname_def)

lemma collect_repeated: "collect parseFloat repeatedExposure = Continue repeatedInputs"
  by (simp add: repeatedExposure_def repeatedInputs_def shot_def readExposure_shot)

lemma py_sort_repeated: "py_sort repeatedInputs = repeatedInputs"
  unfolding repeatedInputs_def shotTriple_def by code_simp

lemma groupExposures_repeated:
  "groupExposures repeatedInputs = Inr [[shotTriple 1, shotTriple 1, shotTriple 2]]"
  unfolding repeatedInputs_def shotTriple_def groupExposures_def walk_init_def
  by (simp add: fgt_def dirname_def)

subsection \<open>The user-forced count\<close>

text \<open>
  C6, as stated, fails. On a node whose \<^verbatim>\<open>input\<close> is not linked, \<^verbatim>\<open>update\<close> sets
  \<^verbatim>\<open>nbBrackets = 0\<close> and returns before it looks at the user-forced count: with the
  count 3 it reports 0. And the flag is computed from the viewpoints of the linked node
  itself: when that node has no \<^verbatim>\<open>viewpoints\<close> attribute and its own \<^verbatim>\<open>input\<close> leads
  to 10 viewpoints, which is where the automatic path reads them, the count 4 leaves
  the flag true.
\<close>

theorem user_override_counterexample:
  "(\<forall>parseFloat.
      map_sum id nbBrackets (update parseFloat (forcedNode 3 None)) = Inr 0) \<and>
   (\<forall>parseFloat.
      map_sum id (\<lambda>n. (nbBrackets n, validValue n))
        (update parseFloat
           (forcedNode 4
              (Some (Upstream None (Some (Some (Upstream (Some (blankViewpoints 10)) None)))))))
      = Inr (4, True))"
  by (simp add: update_def forcedNode_def)

text \<open>
  C6, amended. On a node of this type that has the \<^verbatim>\<open>userNbBrackets\<close> attribute, for
  every nonzero user-forced count: when the \<^verbatim>\<open>input\<close> is not linked, \<^verbatim>\<open>update\<close>
  reports \<^verbatim>\<open>nbBrackets = 0\<close>, with the flag true. When the \<^verbatim>\<open>input\<close> is linked,
  \<^verbatim>\<open>update\<close> raises nothing and sets \<^verbatim>\<open>nbBrackets\<close> to the count, and when the
  linked node has the viewpoints, the flag is true if and only if the count divides
  their number; \<^verbatim>\<open>nbBrackets\<close> is the count also when the flag is false. So
  \<open>bracketDetection\<close>, where the linked node has the viewpoints, gives the count and
  the divisibility, whatever the metadata: no exposure is read, no group is formed.
  (Of a linked node without viewpoints nothing is said about the flag.)
\<close>

theorem user_override:
  assumes "isInstance n" and "hasUserNbBrackets n" and "userNbBrackets n \<noteq> 0"
  shows "(linkParam n = None \<longrightarrow>
            update parseFloat n = Inr (n\<lparr>validValue := True, nbBrackets := 0\<rparr>)) \<and>
         (\<forall>c. linkParam n = Some c \<longrightarrow>
            (\<exists>n'. update parseFloat n = Inr n' \<and> nbBrackets n' = userNbBrackets n \<and>
               (\<forall>vps. viewpoints c = Some vps \<longrightarrow>
                  validValue n' = (userNbBrackets n dvd int (length vps))))) \<and>
         bracketDetection parseFloat (userNbBrackets n) vps =
           Inr (userNbBrackets n, userNbBrackets n dvd int (length vps))"
proof (intro conjI allI impI)
  assume "linkParam n = None"
  with assms show "update parseFloat n = Inr (n\<lparr>validValue := True, nbBrackets := 0\<rparr>)"
    by (simp add: update_def)
next
  fix c
  assume c: "linkParam n = Some c"
  show "\<exists>n'. update parseFloat n = Inr n' \<and> nbBrackets n' = userNbBrackets n \<and>
          (\<forall>vps. viewpoints c = Some vps \<longrightarrow>
             validValue n' = (userNbBrackets n dvd int (length vps)))"
    using assms c by (cases "viewpoints c") (simp_all add: update_def dvd_eq_mod_eq_0)
next
  show "bracketDetection parseFloat (userNbBrackets n) vps =
          Inr (userNbBrackets n, userNbBrackets n dvd int (length vps))"
    using assms(3) by (simp add: bracketDetection_def update_def dvd_eq_mod_eq_0)
qed

theorem user_override_witness:
  "update (\<lambda>s. None) (forcedNode 4 None) =
     Inr ((forcedNode 4 None)\<lparr>validValue := True, nbBrackets := 0\<rparr>) \<and>
   (\<exists>n'. update (\<lambda>s. None) (forcedNode 4 (Some (Upstream (Some (blankViewpoints 10)) None))) =
            Inr n' \<and> nbBrackets n' = 4 \<and> \<not> validValue n') \<and>
   bracketDetection (\<lambda>s. None) 4 (blankViewpoints 12) = Inr (4, True) \<and>
   bracketDetection (\<lambda>s. None) 4 (blankViewpoints 10) = Inr (4, False)"
  using user_override [of "forcedNode 4 None" "\<lambda>s. None" "blankViewpoints 12"]
    user_override [of "forcedNode 4 (Some (Upstream (Some (blankViewpoints 10)) None))"
      "\<lambda>s. None" "blankViewpoints 10"]
  by (simp add: forcedNode_def blankViewpoints_def)

subsection \<open>An image without aperture and shutter speed\<close>

lemma findMetadata_half:
  "findMetadata [(''FNumber'', PInt 2), (''ExposureTime'', PFloat (Fin (1 / 2)))] [''FNumber'']
     (PStr '''') = PInt 2"
  "findMetadata [(''FNumber'', PInt 2), (''ExposureTime'', PFloat (Fin (1 / 2)))]
     [''ExposureTime'', ''Exif:ShutterSpeedValue'', ''ShutterSpeedValue'', ''ShutterSpeed'']
     (PFloat (Fin (- 1))) = PFloat (Fin (1 / 2))"
  "findMetadata [(''FNumber'', PInt 2), (''ExposureTime'', PFloat (Fin (1 / 2)))]
     [''Exif:PhotographicSensitivity'', ''PhotographicSensitivity'',
      ''Photographic Sensitivity'', ''ISO'']
     (PFloat (Fin (- 1))) = PFloat (Fin (- 1))"
  by code_simp+

lemma readExposure_half:
  "readExposure parseFloat [(''FNumber'', PInt 2), (''ExposureTime'', PFloat (Fin (1 / 2)))] =
     Continue (Fin 2, Fin (1 / 2), Fin (- 1))"
  unfolding readExposure_def findMetadata_half by (simp add: int_to_float_small)

lemma findMetadata_make:
  "findMetadata [(''Make'', PStr ''Canon'')] [''FNumber''] (PStr '''') = PStr ''''"
  "findMetadata [(''Make'', PStr ''Canon'')]
     [''Exif:ApertureValue'', ''ApertureValue'', ''Aperture''] (PStr '''') = PStr ''''"
  "findMetadata [(''Make'', PStr ''Canon'')]
     [''ExposureTime'', ''Exif:ShutterSpeedValue'', ''ShutterSpeedValue'', ''ShutterSpeed'']
     (PFloat (Fin (- 1))) = PFloat (Fin (- 1))"
  "findMetadata [(''Make'', PStr ''Canon'')]
     [''Exif:PhotographicSensitivity'', ''PhotographicSensitivity'',
      ''Photographic Sensitivity'', ''ISO'']
     (PFloat (Fin (- 1))) = PFloat (Fin (- 1))"
  by code_simp+

lemma readExposure_make:
  "readExposure parseFloat [(''Make'', PStr ''Canon'')] =
     Continue (Fin (- 1), Fin (- 1), Fin (- 1))"
  unfolding readExposure_def findMetadata_make by simp

lemma dirname_d: "dirname ''d/a.jpg'' = ''d''" "dirname ''d/b.jpg'' = ''d''"
  by code_simp+

lemma path_order_d: "''d/a.jpg'' < ''d/b.jpg''" "\<not> ''d/b.jpg'' < ''d/a.jpg''"
  by code_simp+

text \<open>
  C2 says that an image which resolves neither its aperture nor its shutter speed makes
  \<^verbatim>\<open>update\<close> report \<^verbatim>\<open>nbBrackets = 1\<close> and skip the grouping; so does the
  comment of the source above its test. The code does not. Two images of the directory
  \<^verbatim>\<open>d\<close>: \<^verbatim>\<open>a.jpg\<close> with the metadata \<^verbatim>\<open>{"Make": "Canon"}\<close>, which has neither
  aperture nor shutter speed, and \<^verbatim>\<open>b.jpg\<close> with
  \<^verbatim>\<open>{"FNumber": 2, "ExposureTime": 0.5}\<close>. The absent fields of \<^verbatim>\<open>a.jpg\<close> are read
  as \<open>- 1.0\<close>, which is truthy, so the test \<^verbatim>\<open>not fnumber and not shutterSpeed\<close>
  is false and the grouping goes on: one group of two different triples, and
  \<^verbatim>\<open>nbBrackets = 2\<close>.
\<close>

theorem unresolved_exposure_not_detected:
  "bracketDetection parseFloat 0
     [\<lparr>path = ''d/a.jpg'', metadata = Some [(''Make'', PStr ''Canon'')]\<rparr>,
      \<lparr>path = ''d/b.jpg'',
       metadata = Some [(''FNumber'', PInt 2), (''ExposureTime'', PFloat (Fin (1 / 2)))]\<rparr>] =
   Inr (2, True)"
  by (simp add: bracketDetection_def update_def detectBrackets_def readExposure_make
      readExposure_half py_sort_def groupExposures_def walk_init_def dirname_d fgt_def
      selectBrackets_def path_order_d)

subsection \<open>The exposure value at the default references\<close>

lemma pow2_1075: "(2::real) powr (- 1075) = 1 / 2 ^ 1075"
  by (simp add: powr_minus field_simps)

lemma binary64_pos:
  assumes "1 / 2 ^ 1075 < x"
  shows "binary64 x = PInf \<or> (\<exists>r. binary64 x = Fin r \<and> x / 2 \<le> r)"
proof -
  have "(0::real) < 1 / 2 ^ 1075" by simp
  with assms have "0 \<le> x" by linarith
  from binary64_nonneg[OF this] assms show ?thesis unfolding pow2_1075 by auto
qed

lemma fdiv_error: "fdiv rnd a b = Inl err \<Longrightarrow> err = ZeroDivisionError"
  by (cases a; cases b) (auto split: if_splits)

text \<open>The sensitivity factor against \<open>refIso = 100\<close> is computed without an exception
  and is at least \<open>2 ^ - 16\<close>.\<close>

lemma isoToAperture_default:
  assumes "fgt i (binary64 (1 / 1000000))"
  shows "\<exists>k. ebind (fdiv binary64 i (Fin 100)) (fsqrt binary64) = Inr k \<and>
             (k = PInf \<or> (\<exists>y. k = Fin y \<and> 1 / 2 ^ 16 \<le> y))"
proof -
  obtain m where m: "binary64 (1 / 1000000) = Fin m" "1 / 2000000 \<le> m"
    using binary64_micro by blast
  show ?thesis
  proof (cases i)
    case (Fin x)
    with assms m have x: "1 / 2000000 < x" by (simp add: fgt_def)
    have d: "fdiv binary64 (Fin x) (Fin 100) = Inr (binary64 (x / 100))" by simp
    have "(1::real) / 2 ^ 1075 < 1 / 200000000" by simp
    with x have "1 / 2 ^ 1075 < x / 100" by linarith
    from binary64_pos[OF this]
    consider (inf) "binary64 (x / 100) = PInf"
      | (fin) r where "binary64 (x / 100) = Fin r" "x / 100 / 2 \<le> r" by blast
    then show ?thesis
    proof cases
      case inf
      then show ?thesis by (simp add: Fin)
    next
      case fin
      have "(1::real) / 2 ^ 30 \<le> 1 / 400000000" by simp
      with fin(2) x have r: "1 / 2 ^ 30 \<le> r" by linarith
      have "((1::real) / 2 ^ 15)\<^sup>2 = 1 / 2 ^ 30" by (simp add: power2_eq_square)
      with r have "((1::real) / 2 ^ 15)\<^sup>2 \<le> r" by simp
      then have s: "1 / 2 ^ 15 \<le> sqrt r" by (rule real_le_rsqrt)
      have "(1::real) / 2 ^ 1075 < 1 / 2 ^ 15" by simp
      with s have "1 / 2 ^ 1075 < sqrt r" by linarith
      from binary64_pos[OF this]
      have "binary64 (sqrt r) = PInf \<or> (\<exists>y. binary64 (sqrt r) = Fin y \<and> sqrt r / 2 \<le> y)" .
      moreover have "\<And>y. sqrt r / 2 \<le> y \<Longrightarrow> 1 / 2 ^ 16 \<le> y" using s by simp
      ultimately have "binary64 (sqrt r) = PInf \<or>
          (\<exists>y. binary64 (sqrt r) = Fin y \<and> 1 / 2 ^ 16 \<le> y)" by blast
      moreover have "(0::real) < 1 / 2 ^ 30" by simp
      with r have "\<not> r < 0" by linarith
      ultimately show ?thesis unfolding Fin d ebind.simps fin(1) fsqrt.simps
        by (simp only: if_False sum.inject simp_thms ex_simps)
    qed
  next
    case PInf
    then show ?thesis by simp
  next
    case NInf
    with assms m show ?thesis by (simp add: fgt_def)
  next
    case NaN
    with assms m show ?thesis by (simp add: fgt_def)
  qed
qed

text \<open>At the default references, \<^verbatim>\<open>getExposure\<close> is the sentinel or one division by
  the effective aperture, for a sensitivity factor \<open>k\<close> of at least \<open>2 ^ - 16\<close>.\<close>

lemma getExposure_default_unfold:
  "\<exists>k. (k = PInf \<or> (\<exists>y. k = Fin y \<and> 1 / 2 ^ 16 \<le> y)) \<and>
       getExposure binary64 (f, s, i) (Fin 100) (Fin 1) =
         (if \<not> usable s \<and> \<not> usable f then Inr (Fin (- 1))
          else ebind (fdiv binary64 (Fin 1) (fmul binary64 (if usable f then f else Fin 1) k))
                 (\<lambda>q. Inr (fmul binary64 (if usable s then s else binary64 (1 / 200))
                              (fmul binary64 q q))))"
proof -
  define kk where "kk = (if fgt i (binary64 (1 / 1000000)) \<and> fgt (Fin 100) (binary64 (1 / 1000000))
                 then ebind (fdiv binary64 i (Fin 100)) (fsqrt binary64) else Inr (Fin 1))"
  have "\<exists>k. kk = Inr k \<and> (k = PInf \<or> (\<exists>y. k = Fin y \<and> 1 / 2 ^ 16 \<le> y))"
  proof (cases "fgt i (binary64 (1 / 1000000)) \<and> fgt (Fin 100) (binary64 (1 / 1000000))")
    case True
    then have "kk = ebind (fdiv binary64 i (Fin 100)) (fsqrt binary64)"
      unfolding kk_def by simp
    with isoToAperture_default[of i] True show ?thesis by simp
  next
    case False
    have "kk = Inr (Fin 1)" unfolding kk_def by (simp only: False if_False)
    then show ?thesis by simp
  qed
  then obtain k where k: "kk = Inr k" "k = PInf \<or> (\<exists>y. k = Fin y \<and> 1 / 2 ^ 16 \<le> y)"
    by blast
  have u1: "usable (Fin 1)" by (simp add: usable_def fgt_def)
  have "getExposure binary64 (f, s, i) (Fin 100) (Fin 1) =
         (if \<not> usable s \<and> \<not> usable f then Inr (Fin (- 1))
          else ebind kk (\<lambda>k. ebind (fdiv binary64 (Fin 1)
                                     (fmul binary64 (if usable f then f else Fin 1) k))
                 (\<lambda>q. Inr (fmul binary64 (if usable s then s else binary64 (1 / 200))
                              (fmul binary64 q q)))))"
    unfolding getExposure_formula exposureFormula_def kk_def unscaledAperture_def
    using u1 by (auto simp: Let_def)
  then show ?thesis using k by (intro exI[of _ k]) simp
qed

text \<open>Unless the f-number is tiny, the effective aperture does not round to zero and
  \<^verbatim>\<open>getExposure\<close> raises nothing.\<close>

lemma getExposure_default:
  assumes "\<not> tinyAperture (f, s, i)"
  shows "\<exists>y. getExposure binary64 (f, s, i) (Fin 100) (Fin 1) = Inr y"
proof -
  define f' where "f' = (if usable f then f else Fin 1)"
  from getExposure_default_unfold[of f s i] obtain k where
    k: "k = PInf \<or> (\<exists>y. k = Fin y \<and> 1 / 2 ^ 16 \<le> y)"
    and g: "getExposure binary64 (f, s, i) (Fin 100) (Fin 1) =
         (if \<not> usable s \<and> \<not> usable f then Inr (Fin (- 1))
          else ebind (fdiv binary64 (Fin 1) (fmul binary64 f' k))
                 (\<lambda>q. Inr (fmul binary64 (if usable s then s else binary64 (1 / 200))
                              (fmul binary64 q q))))"
    unfolding f'_def by blast
  have p: "(2::real) powr (- 1000) = 1 / 2 ^ 1000" by (simp add: powr_minus field_simps)
  have "\<exists>a. f' = Fin a \<and> 1 / 2 ^ 1000 \<le> a"
  proof (cases "usable f")
    case True
    then obtain a where a: "f = Fin a" "0 < a" using usable_Fin[of f] by blast
    with assms have "1 / 2 ^ 1000 \<le> a" by (simp add: tinyAperture_def p)
    with a True show ?thesis by (simp add: f'_def)
  next
    case False
    then show ?thesis by (simp add: f'_def)
  qed
  then obtain a where a: "f' = Fin a" "1 / 2 ^ 1000 \<le> a" by blast
  have a0: "0 < a" by (rule less_le_trans[OF _ a(2)]) simp
  have nf: "fmul binary64 f' k = PInf \<or> (\<exists>n. fmul binary64 f' k = Fin n \<and> n \<noteq> 0)"
    using k
  proof
    assume "k = PInf"
    with a0 show ?thesis by (simp add: a(1))
  next
    assume "\<exists>y. k = Fin y \<and> 1 / 2 ^ 16 \<le> y"
    then obtain y where y: "k = Fin y" "1 / 2 ^ 16 \<le> y" by blast
    have "(1 / 2 ^ 1000) * (1 / 2 ^ 16) \<le> a * y"
      by (rule mult_mono[OF a(2) y(2)]) (use a0 in simp_all)
    moreover have "(1::real) / 2 ^ 1075 < (1 / 2 ^ 1000) * (1 / 2 ^ 16)" by simp
    ultimately have big: "1 / 2 ^ 1075 < a * y" by linarith
    then have "0 < a * y" by (rule less_trans[rotated]) simp
    with binary64_pos[OF big] show ?thesis by (auto simp: a(1) y(1))
  qed
  then have "\<exists>q. fdiv binary64 (Fin 1) (fmul binary64 f' k) = Inr q" by auto
  then show ?thesis unfolding g by auto
qed

text \<open>The only exception of \<^verbatim>\<open>getExposure\<close> at the default references is the
  ZeroDivisionError of the division by the effective aperture.\<close>

lemma getExposure_error:
  assumes "getExposure binary64 e (Fin 100) (Fin 1) = Inl err"
  shows "err = ZeroDivisionError"
proof -
  obtain f s i where e: "e = (f, s, i)" by (cases e)
  from getExposure_default_unfold[of f s i] obtain k where
    g: "getExposure binary64 (f, s, i) (Fin 100) (Fin 1) =
         (if \<not> usable s \<and> \<not> usable f then Inr (Fin (- 1))
          else ebind (fdiv binary64 (Fin 1) (fmul binary64 (if usable f then f else Fin 1) k))
                 (\<lambda>q. Inr (fmul binary64 (if usable s then s else binary64 (1 / 200))
                              (fmul binary64 q q))))"
    by blast
  show ?thesis
  proof (cases "fdiv binary64 (Fin 1) (fmul binary64 (if usable f then f else Fin 1) k)")
    case (Inl e')
    then have "e' = ZeroDivisionError" by (rule fdiv_error)
    with assms Inl show ?thesis unfolding e g by (simp split: if_splits)
  next
    case (Inr q)
    with assms show ?thesis unfolding e g by (simp split: if_splits)
  qed
qed

text \<open>With the f-number \<^verbatim>\<open>5e-324\<close> and the sensitivity 1 the sensitivity factor is
  about 0.1, the effective aperture rounds to zero and the division raises.\<close>

lemma getExposure_subnormal:
  "getExposure binary64 subnormalTriple (Fin 100) (Fin 1) = Inl ZeroDivisionError"
proof -
  have "\<bar>1 / 100 :: real\<bar> < 2 ^ 1023" by simp
  from binary64_finite[OF this] obtain r where r: "binary64 (1 / 100) = Fin r" by blast
  from binary64_nonneg[of "1 / 100"] r have r2: "0 \<le> r" "r \<le> 1 / 16" by auto
  have "sqrt r \<le> sqrt (1 / 16)" using r2(2) by (simp only: real_sqrt_le_iff)
  also have "sqrt (1 / 16 :: real) = 1 / 4"
    by (rule real_sqrt_unique) (simp_all add: power2_eq_square)
  finally have s: "sqrt r \<le> 1 / 4" .
  have s0: "0 \<le> sqrt r" using r2(1) by simp
  with s have "\<bar>sqrt r\<bar> < 2 ^ 1023" by simp
  from binary64_finite[OF this] obtain y where y: "binary64 (sqrt r) = Fin y" by blast
  from binary64_nonneg[OF s0] y s have y2: "0 \<le> y" "y \<le> 1 / 2" by auto
  have z0: "0 \<le> 1 / 2 ^ 1074 * y" using y2(1) by simp
  have "1 / 2 ^ 1074 * y \<le> 1 / 2 ^ 1074 * (1 / 2)"
    by (rule mult_left_mono[OF y2(2)]) simp
  then have zs: "1 / 2 ^ 1074 * y \<le> 2 powr (- 1075)" unfolding pow2_1075 by simp
  have "binary64 (1 / 2 ^ 1074 * y) \<noteq> PInf"
  proof -
    have "1 / 2 ^ 1074 * y \<le> 1" using zs unfolding pow2_1075
      by (rule order_trans) simp
    with z0 have "\<bar>1 / 2 ^ 1074 * y\<bar> < 2 ^ 1023" by simp
    from binary64_finite[OF this] show ?thesis by auto
  qed
  with binary64_nonneg[OF z0] zs have z: "binary64 (1 / 2 ^ 1074 * y) = Fin 0" by auto
  have q: "\<not> r < 0" using r2(1) by simp
  have "fgt (Fin 1) (binary64 (1 / 1000000))" "fgt (Fin 100) (binary64 (1 / 1000000))"
    by (simp_all add: fgt_def)
  moreover have "ebind (fdiv binary64 (Fin 1) (Fin 100)) (fsqrt binary64) = Inr (Fin y)"
    using q by (simp add: r y)
  moreover have "fmul binary64 (Fin (1 / 2 ^ 1074)) (Fin y) = Fin 0"
    unfolding fmul.simps by (rule z)
  moreover have "fgt (Fin 1) (Fin 0)" "fgt (Fin (1 / 2 ^ 1074)) (Fin 0)"
    by (simp_all add: fgt_def)
  ultimately show ?thesis
    unfolding subnormalTriple_def getExposure.simps Let_def
    by (simp only: isfinite.simps simp_thms if_True if_False ebind.simps)
      (simp)
qed

subsection \<open>The grouping walk partitions its input\<close>

lemma walk_Cons:
  "getExposure binary64 e (Fin 100) (Fin 1) = Inr cur \<Longrightarrow>
   walk ((p, e) # xs) s = walk xs (walk_step p e cur s)"
  by (simp add: walk_step_def Let_def)

lemma walk_Cons_error:
  "getExposure binary64 e (Fin 100) (Fin 1) = Inl err \<Longrightarrow> walk ((p, e) # xs) s = Inl err"
  by (simp add: Let_def)

lemma walk_step_concat:
  "concat (exposureGroups (walk_step p e cur s) @ [exposures (walk_step p e cur s)]) =
   concat (exposureGroups s @ [exposures s]) @ [e]"
  by (simp add: walk_step_def)

lemma walk_step_nonempty:
  "exposures s \<noteq> [] \<Longrightarrow> [] \<notin> set (exposureGroups s) \<Longrightarrow>
   exposures (walk_step p e cur s) \<noteq> [] \<and> [] \<notin> set (exposureGroups (walk_step p e cur s))"
  by (simp add: walk_step_def)

text \<open>What the walk returns, when it returns.\<close>

lemma walk_result:
  "walk xs s = Inr s' \<Longrightarrow>
     concat (exposureGroups s' @ [exposures s']) =
       concat (exposureGroups s @ [exposures s]) @ map snd xs \<and>
     (exposures s \<noteq> [] \<and> [] \<notin> set (exposureGroups s) \<longrightarrow>
      exposures s' \<noteq> [] \<and> [] \<notin> set (exposureGroups s'))"
proof (induction xs arbitrary: s)
  case Nil
  then show ?case by simp
next
  case (Cons x xs)
  obtain p e where x: "x = (p, e)" by (cases x)
  show ?case
  proof (cases "getExposure binary64 e (Fin 100) (Fin 1)")
    case (Inl err)
    from Cons.prems show ?thesis unfolding x walk_Cons_error[OF Inl] by simp
  next
    case (Inr cur)
    define s1 where "s1 = walk_step p e cur s"
    have step: "walk (x # xs) s = walk xs s1"
      unfolding x s1_def by (rule walk_Cons[OF Inr])
    have c1: "concat (exposureGroups s1 @ [exposures s1]) =
              concat (exposureGroups s @ [exposures s]) @ [e]"
      unfolding s1_def by (rule walk_step_concat)
    have n1: "exposures s \<noteq> [] \<and> [] \<notin> set (exposureGroups s) \<longrightarrow>
              exposures s1 \<noteq> [] \<and> [] \<notin> set (exposureGroups s1)"
      unfolding s1_def using walk_step_nonempty by blast
    from Cons.prems have "walk xs s1 = Inr s'" unfolding step .
    from Cons.IH[OF this] have ih:
      "concat (exposureGroups s' @ [exposures s']) =
         concat (exposureGroups s1 @ [exposures s1]) @ map snd xs"
      "exposures s1 \<noteq> [] \<and> [] \<notin> set (exposureGroups s1) \<longrightarrow>
         exposures s' \<noteq> [] \<and> [] \<notin> set (exposureGroups s')"
      by blast+
    have "concat (exposureGroups s' @ [exposures s']) =
            concat (exposureGroups s @ [exposures s]) @ map snd (x # xs)"
      unfolding ih(1) c1 x by simp
    moreover have "exposures s \<noteq> [] \<and> [] \<notin> set (exposureGroups s) \<longrightarrow>
           exposures s' \<noteq> [] \<and> [] \<notin> set (exposureGroups s')"
      using n1 ih(2) by blast
    ultimately show ?thesis by blast
  qed
qed

text \<open>The walk returns when no exposure computation raises, and raises nothing but
  ZeroDivisionError.\<close>

lemma walk_returns:
  "\<forall>x\<in>set xs. \<not> tinyAperture (snd x) \<Longrightarrow> \<exists>s'. walk xs s = Inr s'"
proof (induction xs arbitrary: s)
  case Nil
  then show ?case by simp
next
  case (Cons x xs)
  obtain p f sh i where x: "x = (p, f, sh, i)" by (cases x)
  from Cons.prems have "\<not> tinyAperture (f, sh, i)" by (simp add: x)
  from getExposure_default[OF this] obtain cur where
    cur: "getExposure binary64 (f, sh, i) (Fin 100) (Fin 1) = Inr cur" by blast
  from Cons.prems have "\<forall>x\<in>set xs. \<not> tinyAperture (snd x)" by simp
  from Cons.IH[OF this] show ?case unfolding x walk_Cons[OF cur] .
qed

lemma walk_error: "walk xs s = Inl err \<Longrightarrow> err = ZeroDivisionError"
proof (induction xs arbitrary: s)
  case Nil
  then show ?case by simp
next
  case (Cons x xs)
  obtain p e where x: "x = (p, e)" by (cases x)
  show ?case
  proof (cases "getExposure binary64 e (Fin 100) (Fin 1)")
    case (Inl err')
    then have "err' = ZeroDivisionError" by (rule getExposure_error)
    with Cons.prems show ?thesis unfolding x walk_Cons_error[OF Inl] by simp
  next
    case (Inr cur)
    from Cons.prems show ?thesis unfolding x walk_Cons[OF Inr] by (rule Cons.IH)
  qed
qed

lemma groupExposures_returns:
  "\<forall>x\<in>set inputs. \<not> tinyAperture (snd x) \<Longrightarrow>
   \<exists>groups. groupExposures inputs = Inr groups \<and> groups \<noteq> []"
proof -
  assume "\<forall>x\<in>set inputs. \<not> tinyAperture (snd x)"
  from walk_returns[OF this] obtain s' where "walk inputs walk_init = Inr s'" by blast
  then show ?thesis by (simp add: groupExposures_def)
qed


lemma groupExposures_error: "groupExposures inputs = Inl err \<Longrightarrow> err = ZeroDivisionError"
  using walk_error[of inputs walk_init err]
  by (auto simp: groupExposures_def split: sum.splits)

lemma groupExposures_partition:
  assumes "inputs \<noteq> []" and "groupExposures inputs = Inr groups"
  shows "[] \<notin> set groups \<and> concat groups = map snd inputs"
proof -
  obtain x xs where i: "inputs = x # xs" using assms(1) by (cases inputs) auto
  obtain p e where x: "x = (p, e)" by (cases x)
  from assms(2) obtain s' where s': "walk inputs walk_init = Inr s'"
    and groups: "groups = exposureGroups s' @ [exposures s']"
    by (auto simp: groupExposures_def split: sum.splits)
  from s' obtain cur where cur: "getExposure binary64 e (Fin 100) (Fin 1) = Inr cur"
    unfolding i x by (cases "getExposure binary64 e (Fin 100) (Fin 1)") (simp_all add: Let_def)
  define s1 where "s1 = walk_step p e cur walk_init"
  have s1: "exposureGroups s1 = []" "exposures s1 = [e]"
    by (simp_all add: s1_def walk_step_def walk_init_def)
  have "walk xs s1 = Inr s'"
    using s' unfolding i x s1_def walk_Cons[OF cur] .
  from walk_result[OF this] have r:
    "concat (exposureGroups s' @ [exposures s']) =
       concat (exposureGroups s1 @ [exposures s1]) @ map snd xs"
    "exposures s1 \<noteq> [] \<and> [] \<notin> set (exposureGroups s1) \<longrightarrow>
       exposures s' \<noteq> [] \<and> [] \<notin> set (exposureGroups s')"
    by blast+
  have "[] \<notin> set (exposureGroups s' @ [exposures s'])"
    using r(2) s1 by auto
  moreover have "concat (exposureGroups s' @ [exposures s']) = map snd inputs"
    unfolding r(1) s1 i x by simp
  ultimately show ?thesis unfolding groups by blast
qed

lemma insort_lt_mset: "mset (insort_lt x ys) = add_mset x (mset ys)"
  by (induction ys) auto

lemma py_sort_mset: "mset (py_sort xs) = mset xs"
  by (induction xs) (simp_all add: py_sort_def insort_lt_mset)

lemma collect_length:
  "collect parseFloat vps = Continue inputs \<Longrightarrow> length inputs = length vps"
  by (induction vps arbitrary: inputs) (auto split: option.splits step.splits)

lemma findMetadata_subnormal:
  "findMetadata [(''FNumber'', PFloat x), (''ExposureTime'', PInt 1), (''ISO'', PInt 1)]
     [''FNumber''] (PStr []) = PFloat x"
  "findMetadata [(''FNumber'', PFloat x), (''ExposureTime'', PInt 1), (''ISO'', PInt 1)]
     [''ExposureTime'', ''Exif:ShutterSpeedValue'', ''ShutterSpeedValue'', ''ShutterSpeed'']
     (PFloat (Fin (- 1))) = PInt 1"
  "findMetadata [(''FNumber'', PFloat x), (''ExposureTime'', PInt 1), (''ISO'', PInt 1)]
     [''Exif:PhotographicSensitivity'', ''PhotographicSensitivity'',
      ''Photographic Sensitivity'', ''ISO'']
     (PFloat (Fin (- 1))) = PInt 1"
  by code_simp+

lemma readExposure_subnormal:
  "readExposure parseFloat
     [(''FNumber'', PFloat x), (''ExposureTime'', PInt 1), (''ISO'', PInt 1)] =
   Continue (x, Fin 1, Fin 1)"
  unfolding readExposure_def findMetadata_subnormal
  by (simp add: int_to_float_small[of 1, simplified])

text \<open>
  C4, as stated, fails. An image with the f-number \<^verbatim>\<open>5e-324\<close>, the exposure time 1
  and the sensitivity 1 passes the metadata checks, and the walk over this one input
  raises ZeroDivisionError: the effective aperture \<open>5e-324 * sqrt (1 / 100)\<close>
  rounds to zero and \<^verbatim>\<open>getExposure\<close> divides by it.
\<close>

theorem grouping_raises_counterexample:
  "(\<forall>parseFloat. collect parseFloat [subnormalShot] = Continue [(''d/a.jpg'', subnormalTriple)]) \<and>
   groupExposures (py_sort [(''d/a.jpg'', subnormalTriple)]) = Inl ZeroDivisionError"
proof -
  have "collect parseFloat [subnormalShot] = Continue [(''d/a.jpg'', subnormalTriple)]"
    for parseFloat
    by (simp add: subnormalShot_def readExposure_subnormal subnormalTriple_def)
  moreover have "py_sort [(''d/a.jpg'', subnormalTriple)] = [(''d/a.jpg'', subnormalTriple)]"
    by (simp add: py_sort_def)
  moreover have "groupExposures [(''d/a.jpg'', subnormalTriple)] = Inl ZeroDivisionError"
    by (simp add: groupExposures_def getExposure_subnormal)
  ultimately show ?thesis by simp
qed

text \<open>
  C4, amended. For every non-empty list of viewpoints that passes the metadata checks
  (the loop over the viewpoints ends with the list \<open>inputs\<close>), the grouping walk over
  the sorted inputs either raises ZeroDivisionError or returns a list of groups; of
  the groups it returns, every one is non-empty, and their concatenation holds each
  exposure triple of the input exactly as many times as the input does. The walk
  returns whenever no image has a positive f-number below \<open>2 ^ - 1000\<close>.
\<close>

theorem grouping_partition:
  assumes "collect parseFloat vps = Continue inputs" and "vps \<noteq> []"
  shows "(\<forall>groups. groupExposures (py_sort inputs) = Inr groups \<longrightarrow>
            (\<forall>g\<in>set groups. g \<noteq> []) \<and> mset (concat groups) = mset (map snd inputs)) \<and>
         (\<forall>err. groupExposures (py_sort inputs) = Inl err \<longrightarrow> err = ZeroDivisionError) \<and>
         ((\<forall>x\<in>set inputs. \<not> tinyAperture (snd x)) \<longrightarrow>
            (\<exists>groups. groupExposures (py_sort inputs) = Inr groups))"
proof (intro conjI allI impI)
  fix groups
  assume g: "groupExposures (py_sort inputs) = Inr groups"
  have "inputs \<noteq> []" using collect_length[OF assms(1)] assms(2) by auto
  then have "py_sort inputs \<noteq> []"
    using py_sort_mset[of inputs] by (metis mset_zero_iff)
  from groupExposures_partition[OF this g]
  have p: "[] \<notin> set groups" "concat groups = map snd (py_sort inputs)" by blast+
  have "mset (map snd (py_sort inputs)) = mset (map snd inputs)"
    using py_sort_mset[of inputs] by (metis mset_map)
  with p show "\<forall>g\<in>set groups. g \<noteq> []" "mset (concat groups) = mset (map snd inputs)"
    by auto
next
  fix err
  assume "groupExposures (py_sort inputs) = Inl err"
  then show "err = ZeroDivisionError" by (rule groupExposures_error)
next
  assume "\<forall>x\<in>set inputs. \<not> tinyAperture (snd x)"
  moreover have "set (py_sort inputs) = set inputs"
    using py_sort_mset[of inputs] by (rule mset_eq_setD)
  ultimately have "\<forall>x\<in>set (py_sort inputs). \<not> tinyAperture (snd x)" by simp
  from groupExposures_returns[OF this]
  show "\<exists>groups. groupExposures (py_sort inputs) = Inr groups" by blast
qed

theorem grouping_partition_witness:
  "collect (\<lambda>s. None) mixedBrackets = Continue mixedInputs \<and> mixedBrackets \<noteq> [] \<and>
   \<not> tinyAperture (shotTriple 1) \<and> \<not> tinyAperture (shotTriple 5) \<and>
   (\<exists>groups. groupExposures (py_sort mixedInputs) = Inr groups \<and>
      (\<forall>g\<in>set groups. g \<noteq> []) \<and>
      mset (concat groups) = mset (map snd mixedInputs))"
proof -
  have c: "collect (\<lambda>s. None) mixedBrackets = Continue mixedInputs" by (rule collect_mixed)
  have n: "mixedBrackets \<noteq> []" by (simp add: mixedBrackets_def)
  have t: "\<not> tinyAperture (shotTriple t)" for t
    by (simp add: tinyAperture_def shotTriple_def powr_minus)
  then have "\<forall>x\<in>set mixedInputs. \<not> tinyAperture (snd x)" by (simp add: mixedInputs_def)
  with grouping_partition[OF c n] c n t show ?thesis by blast
qed

subsection \<open>The size histogram and the selected size\<close>

lemma counter_incr_keys: "set (map fst (counter_incr k c)) = insert k (set (map fst c))"
proof (induction c)
  case Nil
  then show ?case by simp
next
  case (Cons a c)
  obtain k' n where a: "a = (k', n)" by (cases a)
  show ?case using Cons by (cases "k = k'") (simp_all add: a insert_commute)
qed

lemma counter_incr_distinct: "distinct (map fst c) \<Longrightarrow> distinct (map fst (counter_incr k c))"
proof (induction c)
  case Nil
  then show ?case by simp
next
  case (Cons a c)
  obtain k' n where a: "a = (k', n)" by (cases a)
  show ?case
  proof (cases "k = k'")
    case True
    with Cons.prems a show ?thesis by simp
  next
    case False
    have "k' \<notin> set (map fst (counter_incr k c))"
      using Cons.prems a False unfolding counter_incr_keys by simp
    with Cons a False show ?thesis by simp
  qed
qed

lemma counter_incr_map_of:
  "map_of (counter_incr k c) =
   (map_of c)(k \<mapsto> (case map_of c k of None \<Rightarrow> 1 | Some n \<Rightarrow> n + 1))"
  by (induction c) (auto simp: fun_eq_iff)

lemma histogram_of_step:
  assumes "histogram_of ls c"
  shows "histogram_of (ls @ [k]) (counter_incr k c)"
  using assms unfolding histogram_of_def
  by (auto simp: counter_incr_distinct counter_incr_map_of fun_eq_iff count_list_0_iff)

lemma foldl_counter_incr:
  "histogram_of ls c \<Longrightarrow>
   histogram_of (ls @ map length gs) (foldl (\<lambda>b g. counter_incr (length g) b) c gs)"
proof (induction gs arbitrary: ls c)
  case Nil
  then show ?case by simp
next
  case (Cons g gs)
  from Cons.IH[OF histogram_of_step[OF Cons.prems, of "length g"]]
  show ?case by simp
qed

lemma count_sizes_histogram: "histogram_of (map length groups) (count_sizes groups)"
  using foldl_counter_incr[of "[]" "[]" groups]
  by (simp add: count_sizes_def histogram_of_def)

lemma histogram_of_set:
  "histogram_of ls c \<Longrightarrow> set c = {(k, count_list ls k) | k. k \<in> set ls}"
proof -
  assume h: "histogram_of ls c"
  then have d: "distinct (map fst c)" by (simp add: histogram_of_def)
  have "\<And>k n. (k, n) \<in> set c \<longleftrightarrow> k \<in> set ls \<and> n = count_list ls k"
    using h map_of_eq_Some_iff[OF d] unfolding histogram_of_def
    by (metis option.inject option.distinct(1))
  then show ?thesis by auto
qed

lemma best_step_max:
  "best_step (Some b) t = Some (if (snd b, fst b) < (snd t, fst t) then t else b)"
  by (cases b; cases t) auto

lemma foldl_best_step:
  "\<exists>r. foldl best_step (Some b) ts = Some r \<and> r \<in> set (b # ts) \<and>
       (\<forall>t\<in>set (b # ts). (snd t, fst t) \<le> (snd r, fst r))"
proof (induction ts arbitrary: b)
  case Nil
  then show ?case by simp
next
  case (Cons t ts)
  define b' where "b' = (if (snd b, fst b) < (snd t, fst t) then t else b)"
  obtain r where r: "foldl best_step (Some b') ts = Some r" "r \<in> set (b' # ts)"
    "\<forall>u\<in>set (b' # ts). (snd u, fst u) \<le> (snd r, fst r)"
    using Cons.IH[of b'] by blast
  have b'r: "(snd b', fst b') \<le> (snd r, fst r)" using r(3) by simp
  have "(snd b, fst b) \<le> (snd b', fst b')" "(snd t, fst t) \<le> (snd b', fst b')"
    unfolding b'_def by auto
  with b'r have "(snd b, fst b) \<le> (snd r, fst r)" "(snd t, fst t) \<le> (snd r, fst r)"
    by (meson order_trans)+
  moreover have "r \<in> set (b # t # ts)" using r(2) by (auto simp: b'_def split: if_splits)
  moreover have "foldl best_step (Some b) (t # ts) = Some r"
  proof -
    have "best_step (Some b) t = Some b'" by (simp only: best_step_max b'_def)
    then show ?thesis using r(1) by (simp only: foldl_Cons)
  qed
  ultimately show ?case using r(3) by auto
qed

lemma most_common_set: "set (most_common items) = set items"
  by (simp add: most_common_def)

lemma less_eq_key:
  "((c1::nat, k1::nat) \<le> (c2, k2)) = (c1 < c2 \<or> (c1 = c2 \<and> k1 \<le> k2))"
  by auto

lemma selectBrackets_majority:
  assumes "length groups \<noteq> 1" and "groups \<noteq> []"
  shows "\<exists>k. selectBrackets groups = Inr (int k) \<and> k \<in> set (map length groups) \<and>
           (\<forall>m\<in>set (map length groups).
              count_list (map length groups) m < count_list (map length groups) k \<or>
              (count_list (map length groups) m = count_list (map length groups) k \<and> m \<le> k))"
proof -
  define sizes where "sizes = map length groups"
  define items where "items = most_common (count_sizes groups)"
  have set_items: "set items = {(k, count_list sizes k) | k. k \<in> set sizes}"
    unfolding items_def most_common_set sizes_def
    by (rule histogram_of_set[OF count_sizes_histogram])
  have "sizes \<noteq> []" using assms(2) by (simp add: sizes_def)
  then have "set items \<noteq> {}" unfolding set_items by (cases sizes) auto
  then obtain t ts where its: "items = t # ts" by (cases items) auto
  have ne: "count_sizes groups \<noteq> []"
    using its unfolding items_def most_common_def by auto
  from foldl_best_step[of t ts] obtain r where
    r: "foldl best_step (Some t) ts = Some r" "r \<in> set (t # ts)"
       "\<forall>u\<in>set (t # ts). (snd u, fst u) \<le> (snd r, fst r)"
    by blast
  have sel: "selectBrackets groups = Inr (int (fst r))"
    using assms(1) ne r(1) its unfolding selectBrackets_def items_def[symmetric]
    by (simp add: items_def[symmetric])
  have rin: "r \<in> set items" using r(2) its by simp
  then have r_eq: "fst r \<in> set sizes" "snd r = count_list sizes (fst r)"
    unfolding set_items by auto
  have "\<forall>m\<in>set sizes. count_list sizes m < count_list sizes (fst r) \<or>
          (count_list sizes m = count_list sizes (fst r) \<and> m \<le> fst r)"
  proof
    fix m assume "m \<in> set sizes"
    then have "(m, count_list sizes m) \<in> set (t # ts)"
      using set_items its by auto
    with r(3) have "(count_list sizes m, m) \<le> (snd r, fst r)" by fastforce
    then show "count_list sizes m < count_list sizes (fst r) \<or>
          (count_list sizes m = count_list sizes (fst r) \<and> m \<le> fst r)"
      unfolding less_eq_key r_eq(2) .
  qed
  with sel r_eq(1) show ?thesis unfolding sizes_def by blast
qed


lemma detectBrackets_unfold:
  assumes "collect parseFloat vps = Continue inputs"
    and "groupExposures (py_sort inputs) = Inr groups"
    and "selectBrackets groups = Inr k"
  shows "bracketDetection parseFloat 0 vps = Inr (k, True)"
  using assms by (simp add: bracketDetection_def update_def detectBrackets_def)

text \<open>
  C5. Whenever the grouping pass yields two or more exposure groups, the reported
  \<^verbatim>\<open>nbBrackets\<close> is a size \<open>k\<close> of one of the groups such that every group size
  \<open>m\<close> occurs less often than \<open>k\<close>, or as often and is not larger: the size with the
  highest occurrence count, and the larger one among sizes of equal highest count. In
  particular, group sizes 3, 3, 5, 5 (the histogram \<open>{3: 2, 5: 2}\<close>) give 5.
\<close>

theorem majority_vote:
  assumes "collect parseFloat vps = Continue inputs"
    and "groupExposures (py_sort inputs) = Inr groups"
    and "2 \<le> length groups"
  shows "\<exists>k. bracketDetection parseFloat 0 vps = Inr (int k, True) \<and>
           k \<in> set (map length groups) \<and>
           (\<forall>m\<in>set (map length groups).
              count_list (map length groups) m < count_list (map length groups) k \<or>
              (count_list (map length groups) m = count_list (map length groups) k \<and> m \<le> k)) \<and>
           (mset (map length groups) = {#3, 3, 5, 5#} \<longrightarrow> k = 5)"
proof -
  have "length groups \<noteq> 1" "groups \<noteq> []" using assms(3) by auto
  from selectBrackets_majority[OF this] obtain k where
    k: "selectBrackets groups = Inr (int k)" "k \<in> set (map length groups)"
       "\<forall>m\<in>set (map length groups).
              count_list (map length groups) m < count_list (map length groups) k \<or>
              (count_list (map length groups) m = count_list (map length groups) k \<and> m \<le> k)"
    by blast
  have "k = 5" if h: "mset (map length groups) = {#3, 3, 5, 5#}"
  proof -
    have c: "count_list (map length groups) m = count {#3, 3, 5, 5#} m" for m
      using h by (metis count_mset)
    have s: "set (map length groups) = {3, 5}"
      using h by (metis set_mset_mset set_mset_add_mset_insert set_mset_empty insert_absorb2)
    from k(2) s have "k = 3 \<or> k = 5" by auto
    moreover have "5 \<in> set (map length groups)" using s by simp
    with k(3) have "count_list (map length groups) 5 < count_list (map length groups) k \<or>
              (count_list (map length groups) 5 = count_list (map length groups) k \<and> 5 \<le> k)"
      by blast
    ultimately show "k = 5" unfolding c by auto
  qed
  with detectBrackets_unfold[OF assms(1,2) k(1)] k(2,3) show ?thesis by blast
qed

theorem majority_vote_witness:
  "collect (\<lambda>s. None) mixedBrackets = Continue mixedInputs \<and>
   groupExposures (py_sort mixedInputs) = Inr mixedGroups \<and>
   map length mixedGroups = [3, 5, 3, 5] \<and>
   bracketDetection (\<lambda>s. None) 0 mixedBrackets = Inr (5, True)"
proof -
  have c: "collect (\<lambda>s. None) mixedBrackets = Continue mixedInputs" by (rule collect_mixed)
  have g: "groupExposures (py_sort mixedInputs) = Inr mixedGroups"
    unfolding py_sort_mixed by (rule groupExposures_mixed)
  have l: "map length mixedGroups = [3, 5, 3, 5]" by (simp add: mixedGroups_def)
  have n: "2 \<le> length mixedGroups" by (simp add: mixedGroups_def)
  have m: "mset (map length mixedGroups) = {#3, 3, 5, 5#}"
    unfolding l by (simp add: add_mset_commute)
  from majority_vote[OF c g n] m
  have "bracketDetection (\<lambda>s. None) 0 mixedBrackets = Inr (5, True)" by auto
  with c g l show ?thesis by blast
qed

text \<open>
  C10. When the grouping pass yields exactly one group and the triples of that group
  have at least two distinct values, \<^verbatim>\<open>nbBrackets\<close> is the number of images of the
  group, whether a value is repeated in the group or not; the result is a function of
  that one group, and no histogram is consulted.
\<close>

theorem single_group_size:
  assumes "collect parseFloat vps = Continue inputs"
    and "groupExposures (py_sort inputs) = Inr [g]"
    and "2 \<le> card (set g)"
  shows "bracketDetection parseFloat 0 vps = Inr (int (length g), True)"
proof -
  have "length (remdups g) \<noteq> 1" using assms(3) by (simp add: card_set)
  then have "selectBrackets [g] = Inr (int (length g))"
    by (simp add: selectBrackets_def)
  from detectBrackets_unfold[OF assms(1,2) this] show ?thesis .
qed

theorem single_group_size_witness:
  "collect (\<lambda>s. None) repeatedExposure = Continue repeatedInputs \<and>
   groupExposures (py_sort repeatedInputs) = Inr [[shotTriple 1, shotTriple 1, shotTriple 2]] \<and>
   card (set [shotTriple 1, shotTriple 1, shotTriple 2]) = 2 \<and>
   \<not> distinct [shotTriple 1, shotTriple 1, shotTriple 2] \<and>
   bracketDetection (\<lambda>s. None) 0 repeatedExposure = Inr (3, True)"
proof -
  have c: "collect (\<lambda>s. None) repeatedExposure = Continue repeatedInputs"
    by (rule collect_repeated)
  have g: "groupExposures (py_sort repeatedInputs) =
             Inr [[shotTriple 1, shotTriple 1, shotTriple 2]]"
    unfolding py_sort_repeated by (rule groupExposures_repeated)
  have k: "card (set [shotTriple 1, shotTriple 1, shotTriple 2]) = 2"
    by (simp add: shotTriple_def)
  then have n: "2 \<le> card (set [shotTriple 1, shotTriple 1, shotTriple 2])" by simp
  from single_group_size[OF c g n] c g k show ?thesis by simp
qed

subsection \<open>Key spellings in findMetadata\<close>

lemma lower_char_eq_iff:
  assumes "c = CHR '' '' \<or> c = CHR '':'' \<or> c = CHR ''/''"
  shows "lower_char x = c \<longleftrightarrow> x = c"
proof -
  have c: "of_char c = (32::nat) \<or> of_char c = (58::nat) \<or> of_char c = (47::nat)"
    using assms by auto
  show ?thesis
  proof (cases "lower_char x = x")
    case True
    then show ?thesis by simp
  next
    case False
    then have r: "(65 \<le> (of_char x :: nat) \<and> (of_char x :: nat) \<le> 90) \<or>
                  (192 \<le> (of_char x :: nat) \<and> (of_char x :: nat) \<le> 214) \<or>
                  (216 \<le> (of_char x :: nat) \<and> (of_char x :: nat) \<le> 222)"
      and l: "lower_char x = char_of (of_char x + 32 :: nat)"
      by (auto simp: lower_char_def Let_def split: if_splits)
    have "(of_char (lower_char x) :: nat) = (of_char x + 32) mod 256"
      unfolding l by simp
    also have "\<dots> = of_char x + 32" using r by auto
    finally have v: "(of_char (lower_char x) :: nat) = of_char x + 32" .
    have "lower_char x \<noteq> c" using v r c by auto
    moreover have "x \<noteq> c" using r c by auto
    ultimately show ?thesis by simp
  qed
qed

lemma lower_mem_iff:
  "c = CHR '' '' \<or> c = CHR '':'' \<or> c = CHR ''/'' \<Longrightarrow> c \<in> set (lower a) \<longleftrightarrow> c \<in> set a"
proof -
  assume "c = CHR '' '' \<or> c = CHR '':'' \<or> c = CHR ''/''"
  then have "\<And>x. (lower_char x = c) = (x = c)" by (rule lower_char_eq_iff)
  then show ?thesis unfolding lower_def set_map image_iff by metis
qed

lemma remove_spaces_id: "CHR '' '' \<notin> set s \<Longrightarrow> remove_spaces s = s"
  by (induction s) (auto simp: remove_spaces_def)

lemma split_last_id: "sep \<notin> set s \<Longrightarrow> split_last sep s = s"
proof -
  assume "sep \<notin> set s"
  then have "\<forall>x\<in>set (rev s). x \<noteq> sep" by auto
  then have "takeWhile (\<lambda>c. c \<noteq> sep) (rev s) = rev s"
    by (simp only: takeWhile_eq_all_conv)
  then show ?thesis unfolding split_last_def by (simp only: rev_rev_ident)
qed

text \<open>On a record with one entry, an alias without space is resolved by the two
  comparisons of the inner loop alone: the exact lookup adds nothing.\<close>

lemma findMetadata_single:
  assumes "spaceless a"
  shows "findMetadata [(k, v)] (a # keys) dflt =
         (if remove_spaces (lower k) = lower a \<or> normalize_key k = lower a then v
          else findMetadata [(k, v)] keys dflt)"
proof (cases "a = k \<and> v \<noteq> PNone")
  case True
  have "CHR '' '' \<notin> set (lower k)" using assms True lower_mem_iff[of "CHR '' ''" k]
    by (simp add: spaceless_def)
  then have "remove_spaces (lower k) = lower a" using True by (simp add: remove_spaces_id)
  with True show ?thesis by (simp add: dict_get_def)
next
  case False
  then have "dict_get [(k, v)] a = PNone" by (auto simp: dict_get_def)
  then show ?thesis by (simp add: normalize_key_def Let_def)
qed

lemma unqualified_match:
  assumes "unqualified a"
  shows "remove_spaces (lower k) = lower a \<or> normalize_key k = lower a \<longleftrightarrow>
         normalize_key k = lower a"
proof -
  have "CHR '':'' \<notin> set (lower a)" "CHR ''/'' \<notin> set (lower a)"
    using assms lower_mem_iff[of _ a] by (auto simp: unqualified_def)
  then have "normalize_key k = lower a" if "remove_spaces (lower k) = lower a"
    using that by (simp add: normalize_key_def split_last_id)
  then show ?thesis by blast
qed

lemma findMetadata_unqualified:
  assumes "\<forall>a\<in>set keys. unqualified a" and "normalize_key k1 = normalize_key k2"
  shows "findMetadata [(k1, v)] keys dflt = findMetadata [(k2, v)] keys dflt"
  using assms(1)
proof (induction keys)
  case Nil
  then show ?case by simp
next
  case (Cons a keys)
  then have u: "unqualified a"
    and ih: "findMetadata [(k1, v)] keys dflt = findMetadata [(k2, v)] keys dflt"
    by auto
  have s: "spaceless a" using u by (simp add: unqualified_def spaceless_def)
  have "findMetadata [(k1, v)] (a # keys) dflt =
        (if normalize_key k1 = lower a then v else findMetadata [(k1, v)] keys dflt)"
    unfolding findMetadata_single[OF s] unqualified_match[OF u] ..
  moreover have "findMetadata [(k2, v)] (a # keys) dflt =
        (if normalize_key k2 = lower a then v else findMetadata [(k2, v)] keys dflt)"
    unfolding findMetadata_single[OF s] unqualified_match[OF u] ..
  ultimately show ?case using ih assms(2) by simp
qed

lemma findMetadata_case:
  assumes "\<forall>a\<in>set keys1 \<union> set keys2. spaceless a" and "map lower keys1 = map lower keys2"
  shows "findMetadata [(k, v)] keys1 dflt = findMetadata [(k, v)] keys2 dflt"
  using assms
proof (induction keys1 arbitrary: keys2)
  case Nil
  then show ?case by simp
next
  case (Cons a keys1)
  then obtain b keys2' where k2: "keys2 = b # keys2'" by (cases keys2) auto
  have l: "lower a = lower b" "map lower keys1 = map lower keys2'"
    using Cons.prems(2) k2 by auto
  have s: "spaceless a" "spaceless b" "\<forall>a\<in>set keys1 \<union> set keys2'. spaceless a"
    using Cons.prems(1) k2 by auto
  have ih: "findMetadata [(k, v)] keys1 dflt = findMetadata [(k, v)] keys2' dflt"
    using Cons.IH[OF s(3) l(2)] .
  show ?case
    unfolding k2 findMetadata_single[OF s(1)] findMetadata_single[OF s(2)] ih l(1) ..
qed

text \<open>
  C7, as stated, fails, in both halves. The keys \<^verbatim>\<open>Exif:ApertureValue\<close> and
  \<^verbatim>\<open>ApertureValue\<close> differ only by a namespace prefix. For the alias
  \<^verbatim>\<open>Exif:ApertureValue\<close>, the record \<^verbatim>\<open>{"Exif:ApertureValue": 5}\<close> gives 5 and the
  record \<^verbatim>\<open>{"ApertureValue": 5}\<close> gives the default: only the record's key is
  stripped of its prefix, the alias is only lower-cased. Against the one record
  \<^verbatim>\<open>{"ApertureValue": 5}\<close>, the alias \<^verbatim>\<open>Exif:ApertureValue\<close> gives the default and
  the alias \<^verbatim>\<open>ApertureValue\<close> gives 5. In the same way the alias
  \<^verbatim>\<open>Photographic Sensitivity\<close> does not find the key \<^verbatim>\<open>PhotographicSensitivity\<close>,
  which the alias \<^verbatim>\<open>PhotographicSensitivity\<close> finds: spaces are removed from the
  record's key only.
\<close>

theorem findMetadata_spelling_counterexample:
  "same_spelling ''Exif:ApertureValue'' ''ApertureValue'' \<and>
   findMetadata [(''Exif:ApertureValue'', PInt 5)] [''Exif:ApertureValue''] (PStr '''') =
     PInt 5 \<and>
   findMetadata [(''ApertureValue'', PInt 5)] [''Exif:ApertureValue''] (PStr '''') =
     PStr '''' \<and>
   findMetadata [(''ApertureValue'', PInt 5)] [''ApertureValue''] (PStr '''') = PInt 5 \<and>
   same_spelling ''Photographic Sensitivity'' ''PhotographicSensitivity'' \<and>
   findMetadata [(''PhotographicSensitivity'', PInt 100)] [''Photographic Sensitivity'']
     (PFloat (Fin (- 1))) = PFloat (Fin (- 1)) \<and>
   findMetadata [(''PhotographicSensitivity'', PInt 100)] [''PhotographicSensitivity'']
     (PFloat (Fin (- 1))) = PInt 100"
  by code_simp

text \<open>
  C7, amended. For every list of aliases that contain no space, \<open>:\<close> or \<open>/\<close>, every
  default value and every two single-entry records that hold the same value under keys
  differing only by case, spaces or a namespace prefix, \<^verbatim>\<open>findMetadata\<close> returns the
  same value for both records. And two lists of aliases without spaces that differ
  only by case resolve to the same value against the same single-entry record.
\<close>

theorem findMetadata_spelling:
  "((\<forall>a\<in>set keys. unqualified a) \<and> same_spelling k1 k2 \<longrightarrow>
      findMetadata [(k1, v)] keys dflt = findMetadata [(k2, v)] keys dflt) \<and>
   ((\<forall>a\<in>set keys1 \<union> set keys2. spaceless a) \<and> map lower keys1 = map lower keys2 \<longrightarrow>
      findMetadata [(k, w)] keys1 dflt = findMetadata [(k, w)] keys2 dflt)"
  using findMetadata_unqualified findMetadata_case unfolding same_spelling_def by blast

theorem findMetadata_spelling_witness:
  "unqualified ''FNumber'' \<and> same_spelling ''Exif:FNumber'' ''F Number'' \<and>
   findMetadata [(''Exif:FNumber'', PInt 2)] [''FNumber''] (PStr '''') =
     findMetadata [(''F Number'', PInt 2)] [''FNumber''] (PStr '''') \<and>
   findMetadata [(''F Number'', PInt 2)] [''FNumber''] (PStr '''') = PInt 2 \<and>
   spaceless ''FNUMBER'' \<and> spaceless ''fnumber'' \<and>
   map lower [''FNUMBER''] = map lower [''fnumber''] \<and>
   findMetadata [(''FNumber'', PInt 2)] [''FNUMBER''] (PStr '''') =
     findMetadata [(''FNumber'', PInt 2)] [''fnumber''] (PStr '''')"
proof -
  have u: "\<forall>a\<in>set [''FNumber'']. unqualified a" by (simp add: unqualified_def)
  have s: "same_spelling ''Exif:FNumber'' ''F Number''" by code_simp
  have e: "findMetadata [(''F Number'', PInt 2)] [''FNumber''] (PStr '''') = PInt 2"
    by code_simp
  have p: "\<forall>a\<in>set [''FNUMBER''] \<union> set [''fnumber'']. spaceless a"
    by (simp add: spaceless_def)
  have l: "map lower [''FNUMBER''] = map lower [''fnumber'']" by code_simp
  have u': "unqualified ''FNumber''" and p': "spaceless ''FNUMBER''" "spaceless ''fnumber''"
    by (simp_all add: unqualified_def spaceless_def)
  from u' p' findMetadata_spelling[of "[''FNumber'']" "''Exif:FNumber''" "''F Number''" "PInt 2"
      "PStr ''''" "[''FNUMBER'']" "[''fnumber'']" "''FNumber''" "PInt 2"] u s e p l
  show ?thesis by blast
qed

subsection \<open>The order of the sorted inputs\<close>

lemma float_key_inj: "float_key a = float_key b \<longleftrightarrow> a = b"
  by (cases a; cases b) simp_all

lemma flt_key: "a \<noteq> NaN \<Longrightarrow> b \<noteq> NaN \<Longrightarrow> flt a b \<longleftrightarrow> float_key a < float_key b"
  by (cases a; cases b) simp_all

lemma feq_key: "a \<noteq> NaN \<Longrightarrow> feq a b \<longleftrightarrow> float_key a = float_key b"
  by (simp add: feq_def float_key_inj)

lemma triple_lt_key:
  assumes "nanFree (a1, b1, c1)" and "nanFree (a2, b2, c2)"
  shows "triple_lt (a1, b1, c1) (a2, b2, c2) \<longleftrightarrow>
         (float_key a1, float_key b1, float_key c1) < (float_key a2, float_key b2, float_key c2)"
proof -
  have n: "a1 \<noteq> NaN" "b1 \<noteq> NaN" "c1 \<noteq> NaN" "a2 \<noteq> NaN" "b2 \<noteq> NaN" "c2 \<noteq> NaN"
    using assms by simp_all
  show ?thesis
    unfolding triple_lt.simps feq_key[OF n(1)] feq_key[OF n(2)]
      flt_key[OF n(1) n(4)] flt_key[OF n(2) n(5)] flt_key[OF n(3) n(6)]
    by (auto simp: less_le)
qed

lemma input_lt_key:
  assumes "nanFree (snd x)" and "nanFree (snd y)"
  shows "input_lt x y \<longleftrightarrow> input_key x < input_key y"
proof -
  obtain p1 a1 b1 c1 where x: "x = (p1, a1, b1, c1)" by (cases x) auto
  obtain p2 a2 b2 c2 where y: "y = (p2, a2, b2, c2)" by (cases y) auto
  have t: "triple_lt (a1, b1, c1) (a2, b2, c2) \<longleftrightarrow>
         (float_key a1, float_key b1, float_key c1) < (float_key a2, float_key b2, float_key c2)"
    using assms unfolding x y by (intro triple_lt_key) simp_all
  show ?thesis
    unfolding x y input_lt.simps input_key.simps t
    by (cases "p1 = p2") (auto simp: less_le)
qed

lemma input_key_inj: "inj_on input_key A"
proof (rule inj_onI)
  fix x y assume "input_key x = input_key y"
  then show "x = y" by (cases x; cases y) (simp add: float_key_inj)
qed

lemma insort_lt_key:
  assumes "nanFree (snd x)" and "\<forall>y\<in>set ys. nanFree (snd y)"
  shows "insort_lt x ys = insort_key input_key x ys"
  using assms(2)
proof (induction ys)
  case Nil
  then show ?case by simp
next
  case (Cons y ys)
  then have "nanFree (snd y)" by simp
  then have "input_lt y x \<longleftrightarrow> \<not> input_key x \<le> input_key y"
    using input_lt_key[of y x] assms(1) by auto
  with Cons show ?case by simp
qed

lemma py_sort_key:
  "\<forall>x\<in>set xs. nanFree (snd x) \<Longrightarrow> py_sort xs = sort_key input_key xs"
proof (induction xs)
  case Nil
  then show ?case by (simp add: py_sort_def)
next
  case (Cons x xs)
  then have ih: "py_sort xs = sort_key input_key xs" by simp
  have "\<forall>y\<in>set (sort_key input_key xs). nanFree (snd y)" using Cons.prems by simp
  then have "insort_lt x (sort_key input_key xs) = insort_key input_key x (sort_key input_key xs)"
    using Cons.prems by (intro insort_lt_key) simp_all
  then show ?case using ih by (simp add: py_sort_def)
qed

lemma py_sort_permutation:
  assumes "\<forall>x\<in>set xs. nanFree (snd x)" and "mset ys = mset xs"
  shows "py_sort ys = py_sort xs"
proof -
  have "set ys = set xs" using assms(2) by (rule mset_eq_setD)
  then have "\<forall>x\<in>set ys. nanFree (snd x)" using assms(1) by simp
  then have "py_sort ys = sort_key input_key ys" by (rule py_sort_key)
  also have "\<dots> = sort_key input_key xs"
    using assms(2) input_key_inj by (rule sort_key_eq_sort_key)
  also have "\<dots> = py_sort xs" using py_sort_key[OF assms(1)] by simp
  finally show ?thesis .
qed

lemma py_sort_sorted:
  assumes "\<forall>x\<in>set xs. nanFree (snd x)"
  shows "sorted_wrt (\<lambda>x y. \<not> input_lt y x) (py_sort xs) \<and> sorted (map fst (py_sort xs))"
proof -
  have s: "sorted_wrt (\<lambda>x y. input_key x \<le> input_key y) (py_sort xs)"
    using sorted_sort_key[of input_key xs] unfolding py_sort_key[OF assms] sorted_map .
  have m: "set (py_sort xs) = set xs" unfolding py_sort_key[OF assms] by simp
  have "sorted_wrt (\<lambda>x y. \<not> input_lt y x) (py_sort xs)"
  proof (rule sorted_wrt_mono_rel[OF _ s])
    fix x y assume "x \<in> set (py_sort xs)" "y \<in> set (py_sort xs)"
      and le: "input_key x \<le> input_key y"
    then have "nanFree (snd x)" "nanFree (snd y)" using assms m by auto
    from input_lt_key[OF this(2,1)] le show "\<not> input_lt y x" by auto
  qed
  moreover have "sorted_wrt (\<lambda>x y. fst x \<le> fst y) (py_sort xs)"
  proof (rule sorted_wrt_mono_rel[OF _ s])
    fix x y :: "string \<times> triple" assume le: "input_key x \<le> input_key y"
    then show "fst x \<le> fst y" by (cases x; cases y) auto
  qed
  ultimately show ?thesis unfolding sorted_map by blast
qed

text \<open>
  C1, as stated, fails: the path is the first component of the tuples that are sorted.
  The two lists below hold the same two triples; in the first the larger triple has the
  smaller path, and the sorted order of the triples is descending.
\<close>

theorem sort_by_triple_counterexample:
  "mset (map snd [(''d/a.jpg'', (Fin 4, Fin 1, Fin 100)), (''d/b.jpg'', (Fin 2, Fin 1, Fin 100))]) =
   mset (map snd [(''d/a.jpg'', (Fin 2, Fin 1, Fin 100)), (''d/b.jpg'', (Fin 4, Fin 1, Fin 100))]) \<and>
   map snd (py_sort [(''d/a.jpg'', (Fin 4, Fin 1, Fin 100)), (''d/b.jpg'', (Fin 2, Fin 1, Fin 100))]) =
     [(Fin 4, Fin 1, Fin 100), (Fin 2, Fin 1, Fin 100)] \<and>
   map snd (py_sort [(''d/a.jpg'', (Fin 2, Fin 1, Fin 100)), (''d/b.jpg'', (Fin 4, Fin 1, Fin 100))]) =
     [(Fin 2, Fin 1, Fin 100), (Fin 4, Fin 1, Fin 100)] \<and>
   triple_lt (Fin 2, Fin 1, Fin 100) (Fin 4, Fin 1, Fin 100)"
  by (simp add: py_sort_def path_order_d feq_def add_mset_commute)

text \<open>
  C1, amended. In the grouping pass the list of images is sorted ascending by the pair
  (path, ExposureTriple), lexicographically: by path first, then by aperture, shutter
  speed and sensitivity. The sorted list is a permutation of the input list; its pairs
  are ascending, so its paths are; and for every two input lists, without \<open>nan\<close>,
  that hold the same multiset of (path, triple) pairs, the sorted list fed to the
  grouping walk is the same.
\<close>

theorem sort_by_path_then_triple:
  assumes "\<forall>x\<in>set xs. nanFree (snd x)"
  shows "mset (py_sort xs) = mset xs \<and>
         sorted_wrt (\<lambda>x y. \<not> input_lt y x) (py_sort xs) \<and>
         sorted (map fst (py_sort xs)) \<and>
         (\<forall>ys. mset ys = mset xs \<longrightarrow> py_sort ys = py_sort xs)"
  using py_sort_mset[of xs] py_sort_sorted[OF assms] py_sort_permutation[OF assms] by blast

theorem sort_by_path_then_triple_witness:
  "nanFree (Fin 4, Fin 1, Fin 100) \<and> nanFree (Fin 2, Fin 1, Fin 100) \<and>
   py_sort [(''d/b.jpg'', (Fin 2, Fin 1, Fin 100)), (''d/a.jpg'', (Fin 4, Fin 1, Fin 100))] =
     [(''d/a.jpg'', (Fin 4, Fin 1, Fin 100)), (''d/b.jpg'', (Fin 2, Fin 1, Fin 100))] \<and>
   py_sort [(''d/a.jpg'', (Fin 4, Fin 1, Fin 100)), (''d/b.jpg'', (Fin 2, Fin 1, Fin 100))] =
     py_sort [(''d/b.jpg'', (Fin 2, Fin 1, Fin 100)), (''d/a.jpg'', (Fin 4, Fin 1, Fin 100))] \<and>
   sorted (map fst (py_sort [(''d/b.jpg'', (Fin 2, Fin 1, Fin 100)),
                             (''d/a.jpg'', (Fin 4, Fin 1, Fin 100))])) \<and>
   mset (py_sort [(''d/b.jpg'', (Fin 2, Fin 1, Fin 100)), (''d/a.jpg'', (Fin 4, Fin 1, Fin 100))]) =
     mset [(''d/b.jpg'', (Fin 2, Fin 1, Fin 100)), (''d/a.jpg'', (Fin 4, Fin 1, Fin 100))]"
proof -
  have n: "\<forall>x\<in>set [(''d/b.jpg'', (Fin 2, Fin 1, Fin 100)), (''d/a.jpg'', (Fin 4, Fin 1, Fin 100))].
             nanFree (snd x)"
    by simp
  have m: "mset [(''d/a.jpg'', (Fin 4, Fin 1, Fin 100)), (''d/b.jpg'', (Fin 2, Fin 1, Fin 100))] =
           mset [(''d/b.jpg'', (Fin 2, Fin 1, Fin 100)), (''d/a.jpg'', (Fin 4, Fin 1, Fin 100))]"
    by (simp add: add_mset_commute)
  have e: "py_sort [(''d/b.jpg'', (Fin 2, Fin 1, Fin 100)), (''d/a.jpg'', (Fin 4, Fin 1, Fin 100))] =
     [(''d/a.jpg'', (Fin 4, Fin 1, Fin 100)), (''d/b.jpg'', (Fin 2, Fin 1, Fin 100))]"
    by (simp add: py_sort_def path_order_d)
  from sort_by_path_then_triple[OF n] m e show ?thesis by simp
qed

subsection \<open>Reordering the viewpoints\<close>

lemma collect_viewpointInput:
  "collect parseFloat vps = Continue inputs \<longleftrightarrow>
   map (viewpointInput parseFloat) vps = map Some inputs"
proof (induction vps arbitrary: inputs)
  case Nil
  then show ?case by auto
next
  case (Cons vp vps)
  show ?case
  proof (cases "viewpointInput parseFloat vp")
    case None
    then have "collect parseFloat (vp # vps) \<noteq> Continue inputs"
      by (auto simp: viewpointInput_def split: option.splits step.splits)
    with None show ?thesis by (cases inputs) auto
  next
    case (Some x)
    then obtain d t where d: "metadata vp = Some d" "readExposure parseFloat d = Continue t"
      "x = (path vp, t)"
      by (auto simp: viewpointInput_def split: option.splits step.splits)
    show ?thesis
    proof (cases inputs)
      case Nil
      then show ?thesis using d by (auto split: step.splits)
    next
      case (Cons y ys)
      have "collect parseFloat (vp # vps) = Continue (y # ys) \<longleftrightarrow>
            y = x \<and> collect parseFloat vps = Continue ys"
        using d by (auto split: step.splits)
      then show ?thesis using Cons.IH[of ys] Some Cons by auto
    qed
  qed
qed

lemma permuted_inputs:
  assumes "map f vps = map Some inputs" and "mset vps' = mset vps"
  shows "\<exists>inputs'. map f vps' = map Some inputs' \<and> mset inputs' = mset inputs"
proof -
  have m: "mset (map f vps') = mset (map Some inputs)"
    using assms by (metis mset_map)
  then have "set (map f vps') = set (map Some inputs)" by (rule mset_eq_setD)
  then have "\<forall>y\<in>set (map f vps'). \<exists>x. y = Some x" by auto
  then have e: "map Some (map (\<lambda>vp. the (f vp)) vps') = map f vps'"
    by (induction vps') auto
  have "image_mset Some (mset (map (\<lambda>vp. the (f vp)) vps')) = image_mset Some (mset inputs)"
    using m e by (metis mset_map)
  then have "mset (map (\<lambda>vp. the (f vp)) vps') = mset inputs"
    using multiset.inj_map[OF inj_Some] by (metis injD)
  with e show ?thesis by metis
qed

lemma bracketDetection_auto:
  "bracketDetection parseFloat 0 vps =
     (case collect parseFloat vps of
        Raise e \<Rightarrow> Inl e
      | Return k \<Rightarrow> Inr (k, True)
      | Continue inputs \<Rightarrow>
          ebind (groupExposures (py_sort inputs)) (\<lambda>groups.
          ebind (selectBrackets groups) (\<lambda>k. Inr (k, True))))"
proof (cases "collect parseFloat vps")
  case (Raise e)
  then show ?thesis by (simp add: bracketDetection_def update_def detectBrackets_def)
next
  case (Return k)
  then show ?thesis by (simp add: bracketDetection_def update_def detectBrackets_def)
next
  case (Continue inputs)
  show ?thesis
  proof (cases "groupExposures (py_sort inputs)")
    case (Inl e)
    with Continue show ?thesis
      by (simp add: bracketDetection_def update_def detectBrackets_def)
  next
    case (Inr groups)
    with Continue show ?thesis
      by (cases "selectBrackets groups")
        (simp_all add: bracketDetection_def update_def detectBrackets_def)
  qed
qed

lemma detection_permuted:
  assumes "collect parseFloat vps = Continue inputs"
    and "\<forall>x\<in>set inputs. nanFree (snd x)"
    and "mset vps' = mset vps"
  shows "bracketDetection parseFloat u vps' = bracketDetection parseFloat u vps"
proof (cases "u = 0")
  case False
  have "length vps' = length vps" using assms(3) by (metis size_mset)
  with False show ?thesis by (simp add: bracketDetection_def update_def)
next
  case True
  obtain inputs' where i: "collect parseFloat vps' = Continue inputs'"
    "mset inputs' = mset inputs"
    using permuted_inputs[OF _ assms(3)] assms(1) unfolding collect_viewpointInput by blast
  have "py_sort inputs' = py_sort inputs"
    using assms(2) i(2) by (rule py_sort_permutation)
  then show ?thesis
    unfolding True bracketDetection_auto assms(1) i(1) by simp
qed

lemma findMetadata_zero:
  "findMetadata [(''FNumber'', PInt 0), (''ExposureTime'', PInt 0)] [''FNumber''] (PStr '''') =
     PInt 0"
  "findMetadata [(''FNumber'', PInt 0), (''ExposureTime'', PInt 0)]
     [''ExposureTime'', ''Exif:ShutterSpeedValue'', ''ShutterSpeedValue'', ''ShutterSpeed'']
     (PFloat (Fin (- 1))) = PInt 0"
  by code_simp+

lemma readExposure_zero:
  "readExposure parseFloat [(''FNumber'', PInt 0), (''ExposureTime'', PInt 0)] = Return 1"
  unfolding readExposure_def findMetadata_zero by (simp add: Let_def)

text \<open>
  C8, as stated, fails for the permutations. The loop over the viewpoints returns at
  the first viewpoint that has no metadata (\<^verbatim>\<open>nbBrackets = 0\<close>) or whose f-number and
  shutter speed are both falsy (\<^verbatim>\<open>nbBrackets = 1\<close>). With one viewpoint of each kind
  the result is 0 or 1 according to which comes first.
\<close>

theorem permutation_counterexample:
  "mset [\<lparr>path = ''d/a.jpg'', metadata = None\<rparr>,
         \<lparr>path = ''d/b.jpg'',
          metadata = Some [(''FNumber'', PInt 0), (''ExposureTime'', PInt 0)]\<rparr>] =
   mset [\<lparr>path = ''d/b.jpg'',
          metadata = Some [(''FNumber'', PInt 0), (''ExposureTime'', PInt 0)]\<rparr>,
         \<lparr>path = ''d/a.jpg'', metadata = None\<rparr>] \<and>
   (\<forall>parseFloat. bracketDetection parseFloat 0
      [\<lparr>path = ''d/a.jpg'', metadata = None\<rparr>,
       \<lparr>path = ''d/b.jpg'',
        metadata = Some [(''FNumber'', PInt 0), (''ExposureTime'', PInt 0)]\<rparr>] =
      Inr (0, True)) \<and>
   (\<forall>parseFloat. bracketDetection parseFloat 0
      [\<lparr>path = ''d/b.jpg'',
        metadata = Some [(''FNumber'', PInt 0), (''ExposureTime'', PInt 0)]\<rparr>,
       \<lparr>path = ''d/a.jpg'', metadata = None\<rparr>] =
      Inr (1, True))"
  by (simp add: bracketDetection_def update_def detectBrackets_def readExposure_zero
      add_mset_commute)

text \<open>
  C8, amended. The bracket-count computation is a function of its list of viewpoints
  and of the user-forced count (in the model by construction: the same arguments give
  the same result). On a list all of whose viewpoints pass the metadata checks, with
  no \<open>nan\<close> among the exposure triples read, it yields on every permutation of the
  list the identical \<^verbatim>\<open>nbBrackets\<close> and validity flag.
\<close>

theorem detection_permutation:
  assumes "collect parseFloat vps = Continue inputs"
    and "\<forall>x\<in>set inputs. nanFree (snd x)"
    and "mset vps' = mset vps"
  shows "bracketDetection parseFloat u vps' = bracketDetection parseFloat u vps"
  using assms by (rule detection_permuted)

theorem detection_permutation_witness:
  "collect (\<lambda>s. None) repeatedExposure = Continue repeatedInputs \<and>
   nanFree (shotTriple 1) \<and> nanFree (shotTriple 2) \<and>
   mset (rev repeatedExposure) = mset repeatedExposure \<and>
   rev repeatedExposure = [shot ''d/3'' 2, shot ''d/2'' 1, shot ''d/1'' 1] \<and>
   bracketDetection (\<lambda>s. None) 0 (rev repeatedExposure) =
     bracketDetection (\<lambda>s. None) 0 repeatedExposure"
proof -
  have c: "collect (\<lambda>s. None) repeatedExposure = Continue repeatedInputs"
    by (rule collect_repeated)
  have t: "nanFree (shotTriple 1)" "nanFree (shotTriple 2)" by (simp_all add: shotTriple_def)
  then have n: "\<forall>x\<in>set repeatedInputs. nanFree (snd x)" by (simp add: repeatedInputs_def)
  have m: "mset (rev repeatedExposure) = mset repeatedExposure" by simp
  have r: "rev repeatedExposure = [shot ''d/3'' 2, shot ''d/2'' 1, shot ''d/1'' 1]"
    by (simp add: repeatedExposure_def)
  from detection_permutation[OF c n m, of 0] c t m r show ?thesis by blast
qed

subsection \<open>Exceptions\<close>


lemma apertureInRange_simps:
  "\<not> apertureInRange PNone"
  "\<not> apertureInRange (PStr s)"
  "\<bar>n\<bar> < 2 ^ 53 \<Longrightarrow> n \<le> 2046 \<Longrightarrow> apertureInRange (PInt n)"
proof -
  show "\<not> apertureInRange PNone" "\<not> apertureInRange (PStr s)"
    by (simp_all add: apertureInRange_def)
  assume n: "\<bar>n\<bar> < 2 ^ 53" "n \<le> 2046"
  have h: "halve (PInt n) = Inr (Fin (of_int n / 2))"
    using binary64_of_int[OF n(1)] binary64_dyadic[OF n(1), of 1]
    by (simp add: int_to_float_def)
  have "real_of_int n \<le> real_of_int 2046" using n(2) by (simp only: of_int_le_iff)
  then have "real_of_int n / 2 \<le> 1023" by simp
  then have "(2::real) powr (of_int n / 2) \<le> 2 powr 1023" by (rule powr_mono) simp
  then have le: "(2::real) powr (of_int n / 2) \<le> 2 ^ 1023" by simp
  have "\<exists>r. binary64 (2 powr (of_int n / 2)) = Fin r"
  proof (cases "2 powr (real_of_int n / 2) < (2::real) ^ 1023")
    case True
    then have "\<bar>2 powr (real_of_int n / 2)\<bar> < (2::real) ^ 1023" by simp
    then show ?thesis by (rule binary64_finite)
  next
    case False
    with le have e: "2 powr (real_of_int n / 2) = (2::real) ^ 1023" by simp
    have "binary64 (of_int (2 ^ 1023)) = Fin (of_int (2 ^ 1023))"
      using binary64_representable[of 1 1023] by (simp add: powr_realpow)
    then show ?thesis unfolding e by simp
  qed
  then show "apertureInRange (PInt n)"
    unfolding apertureInRange_def h by auto
qed



















end
